theory Spec2Isabelle
  imports Main "HOL-Library.Word"
begin

section \<open>Data model of the range-coalescing red-black tree (rb\_tree.c)\<close>

text \<open>
  Modelled from the spec: the header rb\_tree.h, which declares the structs
  \<open>rb_range_t\<close>, \<open>rb_node_t\<close>, \<open>rb_tree_t\<close> and the enum \<open>rb_tree_status_t\<close>,
  is not among the sources. The fields and enumerators below are exactly the ones
  rb\_tree.c reads and writes. A node pointer is an address (an index into the node
  block) or \<open>None\<close> for \<open>NULL\<close>; the memory of the node block is the field \<open>mem\<close>.
  Values, offsets and sizes are \<open>uint32_t\<close>, so their arithmetic wraps.
\<close>

type_synonym u32 = "32 word"

datatype rb_tree_status_t =
    RB_SUCCESS
  | RB_FAIL_INSERT_DUPLICATE
  | RB_FAIL_TREE_FULL
  | RB_FAIL_SIZE_ZERO
  | RB_FAIL_EXCEEDED_MAX_SIZE
  | RB_FAIL_NULL_TREE
  | RB_FAIL_MEM_ERR
  | RB_FAIL_NULL_NODE
  | RB_FAIL_NULL_RANGE
  | RB_FAIL_VALUE_NOT_FOUND

record rb_range_t =
  rvalue :: u32
  roffset :: u32

text \<open>\<open>range_value\<close> and \<open>range_offset\<close> are \<open>node->range.value\<close> and
  \<open>node->range.offset\<close>; \<open>color\<close> is \<open>True\<close> for RED and \<open>False\<close> for BLACK.\<close>

record rb_node_t =
  range_value :: u32
  range_offset :: u32
  color :: bool
  traversal_state :: bool
  parent :: "nat option"
  left :: "nat option"
  right :: "nat option"

record rb_tree_t =
  tree_size :: u32
  max_size :: u32
  root :: "nat option"
  free_node_head :: "nat option"
  free_node_tail :: "nat option"
  node_block :: "nat option"
  mem :: "nat \<Rightarrow> rb_node_t"

definition UINT32_MAX :: u32 where
  "UINT32_MAX = 4294967295"

definition MAX_TREE_SIZE :: u32 where
  "MAX_TREE_SIZE = (UINT32_MAX div 2) + 1"

abbreviation (input) RED :: bool where "RED \<equiv> True"
abbreviation (input) BLACK :: bool where "BLACK \<equiv> False"

subsection \<open>Writes through a node pointer\<close>

definition set_left :: "nat \<Rightarrow> nat option \<Rightarrow> rb_tree_t \<Rightarrow> rb_tree_t" where
  "set_left n p t = t\<lparr>mem := (mem t)(n := (mem t n)\<lparr>left := p\<rparr>)\<rparr>"

definition set_right :: "nat \<Rightarrow> nat option \<Rightarrow> rb_tree_t \<Rightarrow> rb_tree_t" where
  "set_right n p t = t\<lparr>mem := (mem t)(n := (mem t n)\<lparr>right := p\<rparr>)\<rparr>"

definition set_parent :: "nat \<Rightarrow> nat option \<Rightarrow> rb_tree_t \<Rightarrow> rb_tree_t" where
  "set_parent n p t = t\<lparr>mem := (mem t)(n := (mem t n)\<lparr>parent := p\<rparr>)\<rparr>"

definition set_color :: "nat \<Rightarrow> bool \<Rightarrow> rb_tree_t \<Rightarrow> rb_tree_t" where
  "set_color n c t = t\<lparr>mem := (mem t)(n := (mem t n)\<lparr>color := c\<rparr>)\<rparr>"

definition set_value :: "nat \<Rightarrow> u32 \<Rightarrow> rb_tree_t \<Rightarrow> rb_tree_t" where
  "set_value n v t = t\<lparr>mem := (mem t)(n := (mem t n)\<lparr>range_value := v\<rparr>)\<rparr>"

definition set_offset :: "nat \<Rightarrow> u32 \<Rightarrow> rb_tree_t \<Rightarrow> rb_tree_t" where
  "set_offset n v t = t\<lparr>mem := (mem t)(n := (mem t n)\<lparr>range_offset := v\<rparr>)\<rparr>"

definition set_traversal_state :: "nat \<Rightarrow> bool \<Rightarrow> rb_tree_t \<Rightarrow> rb_tree_t" where
  "set_traversal_state n b t = t\<lparr>mem := (mem t)(n := (mem t n)\<lparr>traversal_state := b\<rparr>)\<rparr>"

subsection \<open>Arena: the free-list\<close>

definition pop_free_node :: "rb_tree_t \<Rightarrow> nat option \<times> rb_tree_t" where
  "pop_free_node tree =
     (case free_node_tail tree of
        None \<Rightarrow> (None, tree)
      | Some free_node \<Rightarrow>
          (let t1 = tree\<lparr>free_node_tail := left (mem tree free_node)\<rparr>;
               t2 = (if free_node_tail t1 = None then t1\<lparr>free_node_head := None\<rparr> else t1)
           in (Some free_node, t2\<lparr>tree_size := tree_size t2 + 1\<rparr>)))"

definition push_free_node :: "rb_tree_t \<Rightarrow> nat \<Rightarrow> rb_tree_t" where
  "push_free_node tree node =
     (let t1 = set_right node (free_node_head tree) tree;
          t2 = set_left node None t1;
          t3 = t2\<lparr>tree_size := tree_size t2 - 1\<rparr>
      in case free_node_head t3 of
           None \<Rightarrow> t3\<lparr>free_node_head := Some node, free_node_tail := Some node\<rparr>
         | Some head \<Rightarrow> (set_left head (Some node) t3)\<lparr>free_node_head := Some node\<rparr>)"

subsection \<open>Colours and family relations\<close>

definition set_black :: "nat \<Rightarrow> rb_tree_t \<Rightarrow> rb_tree_t" where
  "set_black node t = set_color node BLACK t"

definition set_red :: "nat \<Rightarrow> rb_tree_t \<Rightarrow> rb_tree_t" where
  "set_red node t = set_color node RED t"

definition is_black :: "rb_tree_t \<Rightarrow> nat option \<Rightarrow> bool" where
  "is_black t node = (case node of None \<Rightarrow> True | Some n \<Rightarrow> color (mem t n) = BLACK)"

definition is_red :: "rb_tree_t \<Rightarrow> nat option \<Rightarrow> bool" where
  "is_red t node = (case node of None \<Rightarrow> False | Some n \<Rightarrow> color (mem t n) = RED)"

definition get_grandparent :: "rb_tree_t \<Rightarrow> nat \<Rightarrow> nat option" where
  "get_grandparent t node =
     (case parent (mem t node) of None \<Rightarrow> None | Some p \<Rightarrow> parent (mem t p))"

definition is_root :: "rb_tree_t \<Rightarrow> nat \<Rightarrow> bool" where
  "is_root t node = (parent (mem t node) = None)"

definition is_left_child :: "rb_tree_t \<Rightarrow> nat \<Rightarrow> bool" where
  "is_left_child t node =
     (case parent (mem t node) of None \<Rightarrow> False | Some p \<Rightarrow> left (mem t p) = Some node)"

definition get_sibling :: "rb_tree_t \<Rightarrow> nat \<Rightarrow> nat option" where
  "get_sibling t node =
     (case parent (mem t node) of
        None \<Rightarrow> None
      | Some p \<Rightarrow> if is_left_child t node then right (mem t p) else left (mem t p))"

definition get_uncle :: "rb_tree_t \<Rightarrow> nat \<Rightarrow> nat option" where
  "get_uncle t node =
     (case parent (mem t node) of
        None \<Rightarrow> None
      | Some p \<Rightarrow> if get_grandparent t node = None then None else get_sibling t p)"

definition has_left_child :: "rb_tree_t \<Rightarrow> nat \<Rightarrow> bool" where
  "has_left_child t node = (left (mem t node) \<noteq> None)"

definition has_right_child :: "rb_tree_t \<Rightarrow> nat \<Rightarrow> bool" where
  "has_right_child t node = (right (mem t node) \<noteq> None)"

definition remove_from_parent :: "nat \<Rightarrow> rb_tree_t \<Rightarrow> rb_tree_t" where
  "remove_from_parent node t =
     (case parent (mem t node) of
        None \<Rightarrow> t
      | Some p \<Rightarrow> if is_left_child t node then set_left p None t else set_right p None t)"

subsection \<open>Public predicates and creation\<close>

text \<open>A tree handle is \<open>None\<close> for a \<open>NULL\<close> pointer.\<close>

definition rb_tree_is_empty :: "rb_tree_t option \<Rightarrow> bool" where
  "rb_tree_is_empty tree = (case tree of None \<Rightarrow> False | Some t \<Rightarrow> tree_size t = 0)"

definition rb_tree_is_full :: "rb_tree_t option \<Rightarrow> bool" where
  "rb_tree_is_full tree = (case tree of None \<Rightarrow> True | Some t \<Rightarrow> tree_size t = max_size t)"

text \<open>The node block as \<open>calloc\<close> returns it: every byte zero.\<close>

definition zero_node :: rb_node_t where
  "zero_node = \<lparr>range_value = 0, range_offset = 0, color = BLACK, traversal_state = False,
                 parent = None, left = None, right = None\<rparr>"

text \<open>
  \<open>rb_tree_create max_size tree calloc_ok\<close>: \<open>calloc_ok\<close> says whether the allocation of
  the node block succeeds. The block starts at address 0, so the nodes are the addresses
  \<open>0 ..< max_size\<close>, pushed to the free-list in ascending order.
\<close>

definition rb_tree_create ::
  "u32 \<Rightarrow> rb_tree_t option \<Rightarrow> bool \<Rightarrow> rb_tree_status_t \<times> rb_tree_t option" where
  "rb_tree_create max_sz tree calloc_ok =
     (case tree of
        None \<Rightarrow> (RB_FAIL_NULL_TREE, None)
      | Some t0 \<Rightarrow>
          (let t1 = t0\<lparr>tree_size := 0, max_size := 0, root := None, free_node_head := None,
                       free_node_tail := None, node_block := None\<rparr>
           in if max_sz = 0 then (RB_FAIL_SIZE_ZERO, Some t1)
              else if max_sz > MAX_TREE_SIZE then (RB_FAIL_EXCEEDED_MAX_SIZE, Some t1)
              else
                (let t2 = t1\<lparr>tree_size := max_sz, max_size := max_sz\<rparr>
                 in if \<not> calloc_ok then (RB_FAIL_MEM_ERR, Some t2)
                    else
                      (let t3 = t2\<lparr>node_block := Some 0,
                                     mem := (\<lambda>a. if a < unat max_sz then zero_node else mem t2 a)\<rparr>
                       in (RB_SUCCESS, Some (fold (\<lambda>start t. push_free_node t start)
                                                   [0 ..< unat max_sz] t3))))))"

subsection \<open>Rotations\<close>

definition swap_parents :: "nat \<Rightarrow> nat \<Rightarrow> rb_tree_t \<Rightarrow> rb_tree_t" where
  "swap_parents node_1 node_2 tree =
     (let t1 = set_parent node_2 (parent (mem tree node_1)) tree;
          t2 = (case parent (mem t1 node_1) of
                  None \<Rightarrow> t1\<lparr>root := Some node_2\<rparr>
                | Some p \<Rightarrow> if is_left_child t1 node_1 then set_left p (Some node_2) t1
                            else set_right p (Some node_2) t1)
      in set_parent node_1 (Some node_2) t2)"

text \<open>A function that dereferences a pointer which may be \<open>NULL\<close> returns \<open>None\<close>
  where the C program would fault.\<close>

definition rotate_left :: "rb_tree_t \<Rightarrow> nat \<Rightarrow> rb_tree_t option" where
  "rotate_left tree node =
     (case right (mem tree node) of
        None \<Rightarrow> None
      | Some new_parent \<Rightarrow>
          (let t1 = set_right node (left (mem tree new_parent)) tree;
               t2 = set_left new_parent (Some node) t1;
               t3 = (case right (mem t2 node) of
                       None \<Rightarrow> t2
                     | Some r \<Rightarrow> set_parent r (Some node) t2)
           in Some (swap_parents node new_parent t3)))"

definition rotate_right :: "rb_tree_t \<Rightarrow> nat \<Rightarrow> rb_tree_t option" where
  "rotate_right tree node =
     (case left (mem tree node) of
        None \<Rightarrow> None
      | Some new_parent \<Rightarrow>
          (let t1 = set_left node (right (mem tree new_parent)) tree;
               t2 = set_right new_parent (Some node) t1;
               t3 = (case left (mem t2 node) of
                       None \<Rightarrow> t2
                     | Some l \<Rightarrow> set_parent l (Some node) t2)
           in Some (swap_parents node new_parent t3)))"

subsection \<open>Node creation, successors, payload swaps\<close>

definition create_rb_node :: "u32 \<Rightarrow> bool \<Rightarrow> rb_tree_t \<Rightarrow> nat option \<times> rb_tree_t" where
  "create_rb_node v c tree =
     (case pop_free_node tree of
        (None, t1) \<Rightarrow> (None, t1)
      | (Some node, t1) \<Rightarrow>
          (Some node,
           t1\<lparr>mem := (mem t1)(node := \<lparr>range_value = v, range_offset = 0, color = c,
                                        traversal_state = False, parent = None,
                                        left = None, right = None\<rparr>)\<rparr>))"

partial_function (option) rightmost :: "rb_tree_t \<Rightarrow> nat \<Rightarrow> nat option" where
  "rightmost t successor =
     (case right (mem t successor) of
        None \<Rightarrow> Some successor
      | Some r \<Rightarrow> rightmost t r)"

partial_function (option) leftmost :: "rb_tree_t \<Rightarrow> nat \<Rightarrow> nat option" where
  "leftmost t successor =
     (case left (mem t successor) of
        None \<Rightarrow> Some successor
      | Some l \<Rightarrow> leftmost t l)"

text \<open>The successor functions return \<open>Some None\<close> for the \<open>NULL\<close> result and
  \<open>None\<close> when the \<open>while\<close> loop does not end.\<close>

definition get_left_successor :: "rb_tree_t \<Rightarrow> nat \<Rightarrow> nat option option" where
  "get_left_successor t node =
     (case left (mem t node) of
        None \<Rightarrow> Some None
      | Some l \<Rightarrow> map_option Some (rightmost t l))"

definition get_right_successor :: "rb_tree_t \<Rightarrow> nat \<Rightarrow> nat option option" where
  "get_right_successor t node =
     (case right (mem t node) of
        None \<Rightarrow> Some None
      | Some r \<Rightarrow> map_option Some (leftmost t r))"

definition get_successor :: "rb_tree_t \<Rightarrow> nat \<Rightarrow> nat option option" where
  "get_successor t node =
     (case get_left_successor t node of
        None \<Rightarrow> None
      | Some None \<Rightarrow> get_right_successor t node
      | Some (Some s) \<Rightarrow> Some (Some s))"

definition swap_values :: "nat \<Rightarrow> nat \<Rightarrow> rb_tree_t \<Rightarrow> rb_tree_t" where
  "swap_values n1 n2 t =
     (let temp = range_value (mem t n1);
          t1 = set_value n1 (range_value (mem t n2)) t
      in set_value n2 temp t1)"

definition swap_offsets :: "nat \<Rightarrow> nat \<Rightarrow> rb_tree_t \<Rightarrow> rb_tree_t" where
  "swap_offsets n1 n2 t =
     (let temp = range_offset (mem t n1);
          t1 = set_offset n1 (range_offset (mem t n2)) t
      in set_offset n2 temp t1)"

definition replace_node :: "nat \<Rightarrow> nat option \<Rightarrow> rb_tree_t \<Rightarrow> rb_tree_t option" where
  "replace_node node child t =
     (case parent (mem t node) of
        None \<Rightarrow> None
      | Some p \<Rightarrow>
          (let t1 = (if is_left_child t node then set_left p child t else set_right p child t)
           in Some (case child of None \<Rightarrow> t1 | Some c \<Rightarrow> set_parent c (Some p) t1)))"

subsection \<open>Deletion with rebalancing\<close>

text \<open>DELETE\_CASE\_2 of \<open>delete_rebalance\<close>: a red sibling is rotated into the
  grandparent position. \<open>is_red(sibling)\<close> is false for a \<open>NULL\<close> sibling.\<close>

definition delete_case_2 :: "rb_tree_t \<Rightarrow> nat \<Rightarrow> rb_tree_t option" where
  "delete_case_2 tree node =
     (case (get_sibling tree node, parent (mem tree node)) of
        (Some s, Some p) \<Rightarrow>
          if is_red tree (Some s)
          then (let t1 = set_red p tree;
                    t2 = set_black s t1
                in if is_left_child t2 node then rotate_left t2 p else rotate_right t2 p)
          else Some tree
      | _ \<Rightarrow> Some tree)"

text \<open>DELETE\_CASE\_5. A \<open>NULL\<close> sibling counts as black, so \<open>sibling->right\<close> faults.\<close>

definition delete_case_5 :: "rb_tree_t \<Rightarrow> nat \<Rightarrow> rb_tree_t option" where
  "delete_case_5 tree node =
     (case get_sibling tree node of
        None \<Rightarrow> None
      | Some s \<Rightarrow>
          if is_black tree (Some s)
          then (let is_left = is_left_child tree node
                in if is_left \<and> is_black tree (right (mem tree s)) \<and> is_red tree (left (mem tree s))
                   then (let t1 = set_red s tree
                         in case left (mem t1 s) of
                              None \<Rightarrow> None
                            | Some sl \<Rightarrow> rotate_right (set_black sl t1) s)
                   else if \<not> is_left \<and> is_black tree (left (mem tree s)) \<and> is_red tree (right (mem tree s))
                   then rotate_left tree s
                   else Some tree)
          else Some tree)"

text \<open>DELETE\_CASE\_6, which ends the loop.\<close>

definition delete_case_6 :: "rb_tree_t \<Rightarrow> nat \<Rightarrow> rb_tree_t option" where
  "delete_case_6 tree node =
     (case (get_sibling tree node, parent (mem tree node)) of
        (Some s, Some p) \<Rightarrow>
          (let t1 = set_color s (color (mem tree p)) tree;
               t2 = set_black p t1
           in if is_left_child t2 node
              then (case right (mem t2 s) of
                      None \<Rightarrow> None
                    | Some sr \<Rightarrow> rotate_left (set_black sr t2) p)
              else (case left (mem t2 s) of
                      None \<Rightarrow> None
                    | Some sl \<Rightarrow> rotate_right (set_black sl t2) p))
      | _ \<Rightarrow> None)"

text \<open>
  DELETE\_CASE\_3 to DELETE\_CASE\_6, after case 2. The result is the new tree and the node
  to continue with (\<open>Some parent\<close> after DELETE\_CASE\_3, \<open>None\<close> after a \<open>break\<close>). In
  cases 3 and 4 the test \<open>is_black(sibling) && is_black(sibling->left)\<close> faults on a \<open>NULL\<close>
  sibling.
\<close>

definition delete_cases_3_to_6 :: "rb_tree_t \<Rightarrow> nat \<Rightarrow> (rb_tree_t \<times> nat option) option" where
  "delete_cases_3_to_6 t2 node =
     (case (get_sibling t2 node, parent (mem t2 node)) of
        (Some s, Some p) \<Rightarrow>
          if is_black t2 (Some p) \<and> is_black t2 (Some s) \<and>
             is_black t2 (left (mem t2 s)) \<and> is_black t2 (right (mem t2 s))
          then Some (set_red s t2, Some p)
          else if is_red t2 (Some p) \<and> is_black t2 (Some s) \<and>
             is_black t2 (left (mem t2 s)) \<and> is_black t2 (right (mem t2 s))
          then Some (set_black p (set_red s t2), None)
          else (case delete_case_5 t2 node of
                  None \<Rightarrow> None
                | Some t5 \<Rightarrow> map_option (\<lambda>t6. (t6, None)) (delete_case_6 t5 node))
      | _ \<Rightarrow> None)"

text \<open>One pass through the body of the \<open>while\<close> loop of \<open>delete_rebalance\<close>, entered with
  a node that is not the root.\<close>

definition delete_rebalance_body :: "rb_tree_t \<Rightarrow> nat \<Rightarrow> (rb_tree_t \<times> nat option) option" where
  "delete_rebalance_body tree node =
     (case delete_case_2 tree node of
        None \<Rightarrow> None
      | Some t2 \<Rightarrow> delete_cases_3_to_6 t2 node)"

partial_function (option) delete_rebalance :: "rb_tree_t \<Rightarrow> nat \<Rightarrow> rb_tree_t option" where
  "delete_rebalance tree node =
     (if is_root tree node then Some tree
      else (case delete_rebalance_body tree node of
              None \<Rightarrow> None
            | Some (t, None) \<Rightarrow> Some t
            | Some (t, Some n) \<Rightarrow> delete_rebalance t n))"

definition delete_one_child :: "rb_tree_t \<Rightarrow> nat \<Rightarrow> rb_tree_t option" where
  "delete_one_child tree node =
     (let child = (if has_left_child tree node then left (mem tree node) else right (mem tree node))
      in case child of
           None \<Rightarrow>
             (case (if is_black tree (Some node) then delete_rebalance tree node else Some tree) of
                None \<Rightarrow> None
              | Some t1 \<Rightarrow>
                  (case replace_node node child t1 of
                     None \<Rightarrow> None
                   | Some t2 \<Rightarrow> Some (push_free_node t2 node)))
         | Some c \<Rightarrow>
             (case replace_node node child tree of
                None \<Rightarrow> None
              | Some t1 \<Rightarrow>
                  (case (if is_black t1 (Some node)
                         then (if is_red t1 child then Some (set_black c t1)
                               else delete_rebalance t1 node)
                         else Some t1) of
                     None \<Rightarrow> None
                   | Some t2 \<Rightarrow> Some (push_free_node t2 node))))"

definition delete_rb_node :: "rb_tree_t \<Rightarrow> nat \<Rightarrow> rb_tree_t option" where
  "delete_rb_node tree node =
     (case get_successor tree node of
        None \<Rightarrow> None
      | Some (Some successor_node) \<Rightarrow>
          delete_one_child (swap_offsets node successor_node (swap_values node successor_node tree))
                           successor_node
      | Some None \<Rightarrow>
          if is_root tree node then Some ((push_free_node tree node)\<lparr>root := None\<rparr>)
          else delete_one_child tree node)"

subsection \<open>Insertion with merging\<close>

definition are_consecutive :: "u32 \<Rightarrow> u32 \<Rightarrow> bool" where
  "are_consecutive value_1 value_2 = (value_1 \<noteq> UINT32_MAX \<and> value_1 + 1 = value_2)"

text \<open>
  One pass through the \<open>while (true)\<close> loop of \<open>try_binary_insert_or_merge\<close> at \<open>node\<close>:
  \<open>Inr child\<close> to descend to a child, \<open>Inl (status, tree, inserted_node)\<close> at a \<open>break\<close>.
\<close>

definition insert_or_merge_body ::
  "u32 \<Rightarrow> rb_tree_t \<Rightarrow> nat \<Rightarrow> ((rb_tree_status_t \<times> rb_tree_t \<times> nat option) + nat) option" where
  "insert_or_merge_body v tree node =
     (if are_consecutive v (range_value (mem tree node)) then
        (case get_left_successor tree node of
           None \<Rightarrow> None
         | Some successor \<Rightarrow>
             if (case successor of
                   None \<Rightarrow> False
                 | Some s \<Rightarrow> are_consecutive (range_value (mem tree s) + range_offset (mem tree s)) v)
             then (case successor of
                     None \<Rightarrow> None
                   | Some s \<Rightarrow>
                       (let t1 = set_value node (range_value (mem tree s)) tree;
                            t2 = set_offset node (range_offset (mem t1 node) + (range_offset (mem t1 s) + 2)) t1
                        in map_option (\<lambda>t3. Inl (RB_SUCCESS, t3, None)) (delete_rb_node t2 s)))
             else (let t1 = set_value node v tree;
                       t2 = set_offset node (range_offset (mem t1 node) + 1) t1
                   in Some (Inl (RB_SUCCESS, t2, None))))
      else if v < range_value (mem tree node) then
        (case left (mem tree node) of
           Some l \<Rightarrow> Some (Inr l)
         | None \<Rightarrow>
             (case create_rb_node v RED tree of
                (None, t1) \<Rightarrow> Some (Inl (RB_FAIL_TREE_FULL, t1, None))
              | (Some n, t1) \<Rightarrow>
                  Some (Inl (RB_SUCCESS, set_left node (Some n) (set_parent n (Some node) t1), Some n))))
      else if are_consecutive (range_value (mem tree node) + range_offset (mem tree node)) v then
        (case get_right_successor tree node of
           None \<Rightarrow> None
         | Some successor \<Rightarrow>
             if (case successor of
                   None \<Rightarrow> False
                 | Some s \<Rightarrow> are_consecutive v (range_value (mem tree s)))
             then (case successor of
                     None \<Rightarrow> None
                   | Some s \<Rightarrow>
                       (let t1 = set_offset node (range_offset (mem tree node) + (range_offset (mem tree s) + 2)) tree
                        in map_option (\<lambda>t2. Inl (RB_SUCCESS, t2, None)) (delete_rb_node t1 s)))
             else Some (Inl (RB_SUCCESS, set_offset node (range_offset (mem tree node) + 1) tree, None)))
      else if v > range_value (mem tree node) then
        (case right (mem tree node) of
           Some r \<Rightarrow> Some (Inr r)
         | None \<Rightarrow>
             (case create_rb_node v RED tree of
                (None, t1) \<Rightarrow> Some (Inl (RB_FAIL_TREE_FULL, t1, None))
              | (Some n, t1) \<Rightarrow>
                  Some (Inl (RB_SUCCESS, set_right node (Some n) (set_parent n (Some node) t1), Some n))))
      else Some (Inl (RB_FAIL_INSERT_DUPLICATE, tree, None)))"

partial_function (option) insert_or_merge_loop ::
  "u32 \<Rightarrow> rb_tree_t \<Rightarrow> nat \<Rightarrow> (rb_tree_status_t \<times> rb_tree_t \<times> nat option) option" where
  "insert_or_merge_loop v tree node =
     (case insert_or_merge_body v tree node of
        None \<Rightarrow> None
      | Some (Inl res) \<Rightarrow> Some res
      | Some (Inr child) \<Rightarrow> insert_or_merge_loop v tree child)"

text \<open>The result is the status, the tree and \<open>*inserted_node\<close>.\<close>

definition try_binary_insert_or_merge ::
  "u32 \<Rightarrow> rb_tree_t \<Rightarrow> (rb_tree_status_t \<times> rb_tree_t \<times> nat option) option" where
  "try_binary_insert_or_merge v tree =
     (case root tree of
        None \<Rightarrow>
          (case create_rb_node v BLACK tree of
             (n, t1) \<Rightarrow> Some (RB_SUCCESS, t1\<lparr>root := n\<rparr>, n))
      | Some node \<Rightarrow> insert_or_merge_loop v tree node)"

text \<open>
  One pass through the loop of \<open>try_insert_rebalance\<close>: the new tree and the node to
  continue with (\<open>None\<close> after a \<open>break\<close>). \<open>grandparent->left\<close> faults when the red
  parent is the root.
\<close>

definition insert_rebalance_body :: "rb_tree_t \<Rightarrow> nat \<Rightarrow> (rb_tree_t \<times> nat option) option" where
  "insert_rebalance_body tree node =
     (let uncle = get_uncle tree node
      in case parent (mem tree node) of
           None \<Rightarrow> Some (set_black node tree, None)
         | Some p \<Rightarrow>
             if is_black tree (Some p) then Some (tree, None)
             else if uncle \<noteq> None \<and> is_red tree uncle then
               (case uncle of
                  None \<Rightarrow> None
                | Some u \<Rightarrow>
                    (let t1 = set_black p tree;
                         t2 = set_black u t1
                     in case get_grandparent t2 node of
                          None \<Rightarrow> None
                        | Some g \<Rightarrow> Some (set_red g t2, Some g)))
             else
               (case get_grandparent tree node of
                  None \<Rightarrow> None
                | Some g \<Rightarrow>
                    (case (if left (mem tree g) = Some p \<and> right (mem tree p) = Some node
                           then (case rotate_left tree p of
                                   None \<Rightarrow> None
                                 | Some t1 \<Rightarrow> map_option (Pair t1) (left (mem t1 node)))
                           else if right (mem tree g) = Some p \<and> left (mem tree p) = Some node
                           then (case rotate_right tree p of
                                   None \<Rightarrow> None
                                 | Some t1 \<Rightarrow> map_option (Pair t1) (right (mem t1 node)))
                           else Some (tree, node)) of
                       None \<Rightarrow> None
                     | Some (t1, node1) \<Rightarrow>
                         (case (get_grandparent t1 node1, parent (mem t1 node1)) of
                            (Some g1, Some p1) \<Rightarrow>
                              (case (if is_left_child t1 node1 then rotate_right t1 g1
                                     else rotate_left t1 g1) of
                                 None \<Rightarrow> None
                               | Some t2 \<Rightarrow> Some (set_red g1 (set_black p1 t2), None))
                          | _ \<Rightarrow> None))))"

partial_function (option) try_insert_rebalance :: "rb_tree_t \<Rightarrow> nat \<Rightarrow> rb_tree_t option" where
  "try_insert_rebalance tree node =
     (case insert_rebalance_body tree node of
        None \<Rightarrow> None
      | Some (t, None) \<Rightarrow> Some t
      | Some (t, Some n) \<Rightarrow> try_insert_rebalance t n)"

subsection \<open>Deletion without rebalancing, search\<close>

definition delete_rb_node_without_rebalancing :: "rb_tree_t \<Rightarrow> nat \<Rightarrow> rb_tree_t" where
  "delete_rb_node_without_rebalancing tree node =
     (let t1 = (case parent (mem tree node) of
                  Some p \<Rightarrow> if is_left_child tree node then set_left p (right (mem tree node)) tree
                            else set_right p (right (mem tree node)) tree
                | None \<Rightarrow> tree\<lparr>root := right (mem tree node)\<rparr>);
          t2 = (case right (mem t1 node) of
                  None \<Rightarrow> t1
                | Some r \<Rightarrow> set_parent r (parent (mem t1 node)) t1)
      in push_free_node t2 node)"

partial_function (option) binary_search_loop :: "rb_tree_t \<Rightarrow> u32 \<Rightarrow> nat option \<Rightarrow> nat option option" where
  "binary_search_loop tree v node =
     (case node of
        None \<Rightarrow> Some None
      | Some n \<Rightarrow>
          if range_value (mem tree n) \<le> v \<and> range_value (mem tree n) + range_offset (mem tree n) \<ge> v
          then Some (Some n)
          else if range_value (mem tree n) > v then binary_search_loop tree v (left (mem tree n))
          else binary_search_loop tree v (right (mem tree n)))"

definition rb_tree_binary_search :: "rb_tree_t \<Rightarrow> u32 \<Rightarrow> nat option option" where
  "rb_tree_binary_search tree v = binary_search_loop tree v (root tree)"

subsection \<open>Exported functions\<close>

text \<open>
  The public functions take the tree handle (\<open>None\<close> for \<open>NULL\<close>) and return the status
  with the handle's new contents. The outer \<open>option\<close> of a result is \<open>None\<close> when the C
  function does not return: a \<open>NULL\<close> dereference, a failed \<open>assert\<close>, or a loop that
  does not end.
\<close>

partial_function (option) clear_loop :: "rb_tree_t \<Rightarrow> nat option \<Rightarrow> rb_tree_t option" where
  "clear_loop tree node =
     (case node of
        None \<Rightarrow> Some tree
      | Some n \<Rightarrow>
          (let n1 = (case left (mem tree n) of
                       Some l \<Rightarrow> l
                     | None \<Rightarrow> (case right (mem tree n) of Some r \<Rightarrow> r | None \<Rightarrow> n));
               t1 = remove_from_parent n1 tree;
               t2 = push_free_node t1 n1
           in clear_loop t2 (parent (mem t2 n1))))"

definition rb_tree_clear :: "rb_tree_t option \<Rightarrow> (rb_tree_status_t \<times> rb_tree_t option) option" where
  "rb_tree_clear tree =
     (case tree of
        None \<Rightarrow> Some (RB_FAIL_NULL_TREE, None)
      | Some t \<Rightarrow>
          if rb_tree_is_empty tree then Some (RB_SUCCESS, Some t)
          else map_option (\<lambda>t1. (RB_SUCCESS, Some t1)) (clear_loop t (root t)))"

definition rb_tree_insert ::
  "u32 \<Rightarrow> rb_tree_t option \<Rightarrow> (rb_tree_status_t \<times> rb_tree_t option) option" where
  "rb_tree_insert v tree =
     (case tree of
        None \<Rightarrow> Some (RB_FAIL_NULL_TREE, None)
      | Some t \<Rightarrow>
          if node_block t = None \<or> max_size t = 0 then Some (RB_FAIL_SIZE_ZERO, Some t)
          else (case try_binary_insert_or_merge v t of
                  None \<Rightarrow> None
                | Some (status, t1, inserted_node) \<Rightarrow>
                    (case inserted_node of
                       Some n \<Rightarrow>
                         if status = RB_SUCCESS
                         then map_option (\<lambda>t2. (status, Some t2)) (try_insert_rebalance t1 n)
                         else Some (status, Some t1)
                     | None \<Rightarrow> Some (status, Some t1))))"

text \<open>
  \<open>rb_tree_delete\<close>. The two \<open>assert\<close>s of the split branch are compiled in
  (\<open>assert.h\<close> is included and \<open>NDEBUG\<close> is not defined): where one fails the result is
  \<open>None\<close>.
\<close>

definition rb_tree_delete ::
  "u32 \<Rightarrow> rb_tree_t option \<Rightarrow> (rb_tree_status_t \<times> rb_tree_t option) option" where
  "rb_tree_delete v tree =
     (case tree of
        None \<Rightarrow> Some (RB_FAIL_NULL_TREE, None)
      | Some t \<Rightarrow>
          (case rb_tree_binary_search t v of
             None \<Rightarrow> None
           | Some None \<Rightarrow> Some (RB_FAIL_VALUE_NOT_FOUND, Some t)
           | Some (Some node) \<Rightarrow>
               if range_offset (mem t node) = 0
               then map_option (\<lambda>t1. (RB_SUCCESS, Some t1)) (delete_rb_node t node)
               else if v = range_value (mem t node) \<and> range_offset (mem t node) \<noteq> 0
               then (let t1 = set_value node (range_value (mem t node) + 1) t;
                         t2 = set_offset node (range_offset (mem t1 node) - 1) t1
                     in Some (RB_SUCCESS, Some t2))
               else if v = range_value (mem t node) + range_offset (mem t node)
               then Some (RB_SUCCESS, Some (set_offset node (range_offset (mem t node) - 1) t))
               else (case try_binary_insert_or_merge (v + 1) t of
                       None \<Rightarrow> None
                     | Some (insert_status, t1, upper_node) \<Rightarrow>
                         if insert_status \<noteq> RB_SUCCESS
                         then (if insert_status = RB_FAIL_TREE_FULL
                               then Some (insert_status, Some t1) else None)
                         else (case upper_node of
                                 None \<Rightarrow> None
                               | Some u \<Rightarrow>
                                   (let t2 = set_offset u (range_value (mem t1 node)
                                                           + range_offset (mem t1 node)
                                                           - range_value (mem t1 u)) t1;
                                        t3 = set_offset node (v - range_value (mem t2 node) - 1) t2
                                    in Some (RB_SUCCESS, Some t3))))))"

definition rb_tree_destroy :: "rb_tree_t option \<Rightarrow> rb_tree_status_t \<times> rb_tree_t option" where
  "rb_tree_destroy tree =
     (case tree of
        None \<Rightarrow> (RB_FAIL_NULL_TREE, None)
      | Some t \<Rightarrow> (RB_SUCCESS, Some (t\<lparr>node_block := None\<rparr>)))"

subsection \<open>Iterator\<close>

text \<open>The descent \<open>while (has_left_child(node)) { node = node->left;
  node->traversal_state = false; }\<close>, shared by both iterator functions.\<close>

partial_function (option) descend_left :: "rb_tree_t \<Rightarrow> nat \<Rightarrow> (rb_tree_t \<times> nat) option" where
  "descend_left tree node =
     (case left (mem tree node) of
        None \<Rightarrow> Some (tree, node)
      | Some l \<Rightarrow> descend_left (set_traversal_state l False tree) l)"

text \<open>The climb \<open>while (node != NULL && node->traversal_state) node = node->parent;\<close>.\<close>

partial_function (option) ascend_visited :: "rb_tree_t \<Rightarrow> nat option \<Rightarrow> nat option option" where
  "ascend_visited tree node =
     (case node of
        None \<Rightarrow> Some None
      | Some n \<Rightarrow>
          if traversal_state (mem tree n) then ascend_visited tree (parent (mem tree n))
          else Some (Some n))"

text \<open>The result is the status, the tree and \<open>*iter\<close>, which is an in-out parameter.\<close>

definition rb_tree_get_first_rb_node ::
  "rb_tree_t option \<Rightarrow> nat option \<Rightarrow> (rb_tree_status_t \<times> rb_tree_t option \<times> nat option) option" where
  "rb_tree_get_first_rb_node tree iter =
     (case tree of
        None \<Rightarrow> Some (RB_FAIL_NULL_TREE, None, iter)
      | Some t \<Rightarrow>
          (case root t of
             None \<Rightarrow> Some (RB_FAIL_NULL_TREE, Some t, None)
           | Some r \<Rightarrow>
               map_option (\<lambda>(t1, it). (RB_SUCCESS, Some t1, Some it))
                          (descend_left (set_traversal_state r False t) r)))"

text \<open>
  \<open>rb_tree_get_next_rb_node\<close>: \<open>iter\<close> is \<open>*iter\<close> and \<open>range_out\<close> is the caller's range
  (\<open>None\<close> for a \<open>NULL\<close> pointer); both are returned. The function has no test of the
  tree handle. A node lives in the node block of a tree, so with a \<open>NULL\<close> handle and a
  node to read there is no memory in this model, and the result is \<open>None\<close>.
\<close>

definition rb_tree_get_next_rb_node ::
  "rb_tree_t option \<Rightarrow> nat option \<Rightarrow> rb_range_t option \<Rightarrow> bool \<Rightarrow> bool \<Rightarrow>
   (rb_tree_status_t \<times> rb_tree_t option \<times> nat option \<times> rb_range_t option) option" where
  "rb_tree_get_next_rb_node tree iter range_out should_pop should_rebalance =
     (case iter of
        None \<Rightarrow> Some (RB_FAIL_NULL_NODE, tree, iter, range_out)
      | Some delete_node \<Rightarrow>
          (case range_out of
             None \<Rightarrow> Some (RB_FAIL_NULL_RANGE, tree, iter, range_out)
           | Some _ \<Rightarrow>
               (case tree of
                  None \<Rightarrow> None
                | Some t \<Rightarrow>
                    (let range1 = \<lparr>rvalue = range_value (mem t delete_node),
                                   roffset = range_offset (mem t delete_node)\<rparr>
                     in if should_pop \<and> should_rebalance
                        then (case delete_rb_node t delete_node of
                                None \<Rightarrow> None
                              | Some t1 \<Rightarrow>
                                  (case rb_tree_get_first_rb_node (Some t1) iter of
                                     None \<Rightarrow> None
                                   | Some (_, t2, iter1) \<Rightarrow> Some (RB_SUCCESS, t2, iter1, Some range1)))
                        else (case (case right (mem t delete_node) of
                                      Some r \<Rightarrow>
                                        map_option (\<lambda>(t2, it). (t2, Some it))
                                          (descend_left
                                             (set_traversal_state r False
                                                (set_traversal_state delete_node True t)) r)
                                    | None \<Rightarrow>
                                        (let t1 = set_traversal_state delete_node True t
                                         in map_option (Pair t1) (ascend_visited t1 (Some delete_node)))) of
                                None \<Rightarrow> None
                              | Some (t2, iter1) \<Rightarrow>
                                  Some (RB_SUCCESS,
                                        Some (if should_pop \<and> \<not> should_rebalance
                                              then delete_rb_node_without_rebalancing t2 delete_node
                                              else t2),
                                        iter1, Some range1))))))"

section \<open>The tree in memory as a tree of addresses\<close>

text \<open>
  The shape of the tree that hangs from a pointer: \<open>tree_at m par p T\<close> says that in the
  memory \<open>m\<close> the pointer \<open>p\<close> leads to the tree \<open>T\<close> of node addresses, following \<open>left\<close>
  and \<open>right\<close>, and that every \<open>parent\<close> pointer points back (\<open>par\<close> for the top node).
\<close>


datatype ptree = Leaf | Node ptree nat ptree

fun nodes_of :: "ptree \<Rightarrow> nat list" where
  "nodes_of Leaf = []"
| "nodes_of (Node l a r) = nodes_of l @ a # nodes_of r"

fun tree_at :: "(nat \<Rightarrow> rb_node_t) \<Rightarrow> nat option \<Rightarrow> nat option \<Rightarrow> ptree \<Rightarrow> bool" where
  "tree_at m par None Leaf = True"
| "tree_at m par (Some a) (Node l b r) =
     (a = b \<and> parent (m a) = par \<and> tree_at m (Some a) (left (m a)) l \<and> tree_at m (Some a) (right (m a)) r)"
| "tree_at m par None (Node l b r) = False"
| "tree_at m par (Some a) Leaf = False"

text \<open>The bounds of a node's range as numbers, and the order invariant I4 of the spec:
  everything in the left subtree lies below \<open>value - 1\<close>, everything in the right subtree
  above \<open>value + offset + 1\<close>, and no range wraps.\<close>

definition lo :: "(nat \<Rightarrow> rb_node_t) \<Rightarrow> nat \<Rightarrow> nat" where
  "lo m a = unat (range_value (m a))"

definition hi :: "(nat \<Rightarrow> rb_node_t) \<Rightarrow> nat \<Rightarrow> nat" where
  "hi m a = unat (range_value (m a)) + unat (range_offset (m a))"

fun bst :: "(nat \<Rightarrow> rb_node_t) \<Rightarrow> ptree \<Rightarrow> bool" where
  "bst m Leaf = True"
| "bst m (Node l a r) =
     (bst m l \<and> bst m r \<and> hi m a < 2 ^ 32 \<and>
      (\<forall>x \<in> set (nodes_of l). hi m x + 1 < lo m a) \<and>
      (\<forall>x \<in> set (nodes_of r). hi m a + 1 < lo m x))"

text \<open>The shape after a node \<open>u\<close> is linked in as the in-order successor of \<open>n\<close>.\<close>

fun ins_leftmost :: "nat \<Rightarrow> ptree \<Rightarrow> ptree" where
  "ins_leftmost u Leaf = Node Leaf u Leaf"
| "ins_leftmost u (Node l a r) = Node (ins_leftmost u l) a r"

fun ins_after :: "nat \<Rightarrow> nat \<Rightarrow> ptree \<Rightarrow> ptree" where
  "ins_after n u Leaf = Leaf"
| "ins_after n u (Node l a r) =
     (if a = n then Node l a (ins_leftmost u r)
      else if n \<in> set (nodes_of l) then Node (ins_after n u l) a r
      else Node l a (ins_after n u r))"

text \<open>The node that \<open>create_rb_node\<close> and \<open>insert_child\<close> leave under the parent \<open>y\<close>.\<close>

definition new_leaf :: "u32 \<Rightarrow> nat \<Rightarrow> rb_node_t" where
  "new_leaf v y = \<lparr>range_value = v, range_offset = 0, color = RED, traversal_state = False,
                  parent = Some y, left = None, right = None\<rparr>"

section \<open>A tree with a hole\<close>

text \<open>
  The rebalancing loops of the source walk up from a node, and a rotation rearranges the
  nodes around one position. Both are described by a subtree together with the path from
  it to the root: a \<open>frame\<close> \<open>Lf p R\<close> says that the subtree is the left child of \<open>p\<close> and
  that \<open>R\<close> hangs to the right of \<open>p\<close>, \<open>Rt L p\<close> that it is the right child of \<open>p\<close> below
  the left subtree \<open>L\<close>. The list of frames starts at the parent and ends at the root;
  \<open>plug fs S\<close> is the whole tree.
\<close>

datatype frame = Lf nat ptree | Rt ptree nat

fun frame_addr :: "frame \<Rightarrow> nat" where
  "frame_addr (Lf p R) = p"
| "frame_addr (Rt L p) = p"

fun plug :: "frame list \<Rightarrow> ptree \<Rightarrow> ptree" where
  "plug [] S = S"
| "plug (Lf p R # fs) S = plug fs (Node S p R)"
| "plug (Rt L p # fs) S = plug fs (Node L p S)"

text \<open>The \<open>parent\<close> pointer that the top node of the subtree must hold, and the pointer
  that leads to a subtree.\<close>

fun hole_par :: "frame list \<Rightarrow> nat option" where
  "hole_par [] = None"
| "hole_par (f # fs) = Some (frame_addr f)"

fun ptr :: "ptree \<Rightarrow> nat option" where
  "ptr Leaf = None"
| "ptr (Node l a r) = Some a"

text \<open>\<open>ctx_at m rt fs h\<close>: in the memory \<open>m\<close> the nodes of the frames are linked as \<open>fs\<close>
  says, the pointer into the hole is \<open>h\<close>, and the topmost frame is the node that the root
  pointer \<open>rt\<close> names.\<close>

fun ctx_at :: "(nat \<Rightarrow> rb_node_t) \<Rightarrow> nat option \<Rightarrow> frame list \<Rightarrow> nat option \<Rightarrow> bool" where
  "ctx_at m rt [] h = (h = rt)"
| "ctx_at m rt (Lf p R # fs) h =
     (left (m p) = h \<and> parent (m p) = hole_par fs \<and> tree_at m (Some p) (right (m p)) R \<and>
      ctx_at m rt fs (Some p))"
| "ctx_at m rt (Rt L p # fs) h =
     (right (m p) = h \<and> parent (m p) = hole_par fs \<and> tree_at m (Some p) (left (m p)) L \<and>
      ctx_at m rt fs (Some p))"

text \<open>The addresses of a context, in order: those before the hole, those after it, and
  all of them.\<close>

fun ctx_left :: "frame list \<Rightarrow> nat list" where
  "ctx_left [] = []"
| "ctx_left (Lf p R # fs) = ctx_left fs"
| "ctx_left (Rt L p # fs) = ctx_left fs @ nodes_of L @ [p]"

fun ctx_right :: "frame list \<Rightarrow> nat list" where
  "ctx_right [] = []"
| "ctx_right (Lf p R # fs) = p # nodes_of R @ ctx_right fs"
| "ctx_right (Rt L p # fs) = ctx_right fs"

text \<open>Two memories that agree on the three pointers of a node.\<close>

definition same_links :: "(nat \<Rightarrow> rb_node_t) \<Rightarrow> (nat \<Rightarrow> rb_node_t) \<Rightarrow> nat \<Rightarrow> bool" where
  "same_links m m' a \<longleftrightarrow>
     parent (m' a) = parent (m a) \<and> left (m' a) = left (m a) \<and> right (m' a) = right (m a)"

fun ctx_nodes :: "frame list \<Rightarrow> nat list" where
  "ctx_nodes [] = []"
| "ctx_nodes (Lf p R # fs) = p # nodes_of R @ ctx_nodes fs"
| "ctx_nodes (Rt L p # fs) = p # nodes_of L @ ctx_nodes fs"

text \<open>The pointer that leads to the hole is redirected.\<close>

definition redirect :: "frame list \<Rightarrow> nat option \<Rightarrow> (nat \<Rightarrow> rb_node_t) \<Rightarrow> (nat \<Rightarrow> rb_node_t)" where
  "redirect fs h m =
     (case fs of
        [] \<Rightarrow> m
      | Lf p R # _ \<Rightarrow> m(p := (m p)\<lparr>left := h\<rparr>)
      | Rt L p # _ \<Rightarrow> m(p := (m p)\<lparr>right := h\<rparr>))"

text \<open>What a rotation leaves alone: the fields of the handle other than \<open>root\<close>, and in
  every node the range, the colour and the traversal state.\<close>

definition same_data :: "rb_tree_t \<Rightarrow> rb_tree_t \<Rightarrow> bool" where
  "same_data t t' \<longleftrightarrow>
     tree_size t' = tree_size t \<and> max_size t' = max_size t \<and>
     free_node_head t' = free_node_head t \<and> free_node_tail t' = free_node_tail t \<and>
     node_block t' = node_block t \<and>
     (\<forall>a. range_value (mem t' a) = range_value (mem t a) \<and>
          range_offset (mem t' a) = range_offset (mem t a) \<and>
          color (mem t' a) = color (mem t a) \<and>
          traversal_state (mem t' a) = traversal_state (mem t a))"

text \<open>The memory after \<open>rotate_left\<close> at \<open>p\<close> with the right child \<open>s\<close>, and after
  \<open>rotate_right\<close> at \<open>p\<close> with the left child \<open>s\<close>, node by node.\<close>

definition rotated_left :: "(nat \<Rightarrow> rb_node_t) \<Rightarrow> nat \<Rightarrow> nat \<Rightarrow> nat \<Rightarrow> rb_node_t" where
  "rotated_left m p s a =
     (if a = p then (m p)\<lparr>right := left (m s), parent := Some s\<rparr>
      else if a = s then (m s)\<lparr>left := Some p, parent := parent (m p)\<rparr>
      else if Some a = left (m s) then (m a)\<lparr>parent := Some p\<rparr>
      else if Some a = parent (m p)
           then (if left (m a) = Some p then (m a)\<lparr>left := Some s\<rparr> else (m a)\<lparr>right := Some s\<rparr>)
      else m a)"

definition rotated_right :: "(nat \<Rightarrow> rb_node_t) \<Rightarrow> nat \<Rightarrow> nat \<Rightarrow> nat \<Rightarrow> rb_node_t" where
  "rotated_right m p s a =
     (if a = p then (m p)\<lparr>left := right (m s), parent := Some s\<rparr>
      else if a = s then (m s)\<lparr>right := Some p, parent := parent (m p)\<rparr>
      else if Some a = right (m s) then (m a)\<lparr>parent := Some p\<rparr>
      else if Some a = parent (m p)
           then (if left (m a) = Some p then (m a)\<lparr>left := Some s\<rparr> else (m a)\<lparr>right := Some s\<rparr>)
      else m a)"

section \<open>The red-black invariants\<close>

text \<open>
  The invariants of a red-black tree over the tree of addresses, for a colouring \<open>c\<close>
  (\<open>c a\<close> holds when node \<open>a\<close> is red): every path from a node down to a \<open>NULL\<close> child
  passes the same number of black nodes (\<open>invh\<close>), a red node has no red child (\<open>invc\<close>),
  and the root is black.
\<close>

fun bh :: "(nat \<Rightarrow> bool) \<Rightarrow> ptree \<Rightarrow> nat" where
  "bh c Leaf = 0"
| "bh c (Node l a r) = bh c l + (if c a then 0 else 1)"

fun invh :: "(nat \<Rightarrow> bool) \<Rightarrow> ptree \<Rightarrow> bool" where
  "invh c Leaf = True"
| "invh c (Node l a r) = (invh c l \<and> invh c r \<and> bh c l = bh c r)"

fun red_root :: "(nat \<Rightarrow> bool) \<Rightarrow> ptree \<Rightarrow> bool" where
  "red_root c Leaf = False"
| "red_root c (Node l a r) = c a"

fun invc :: "(nat \<Rightarrow> bool) \<Rightarrow> ptree \<Rightarrow> bool" where
  "invc c Leaf = True"
| "invc c (Node l a r) = (invc c l \<and> invc c r \<and> (c a \<longrightarrow> \<not> red_root c l \<and> \<not> red_root c r))"

definition rbt :: "(nat \<Rightarrow> bool) \<Rightarrow> ptree \<Rightarrow> bool" where
  "rbt c T \<longleftrightarrow> invh c T \<and> invc c T \<and> \<not> red_root c T"

text \<open>The colouring read from the memory of a tree.\<close>

definition cols :: "rb_tree_t \<Rightarrow> nat \<Rightarrow> bool" where
  "cols t a = color (mem t a)"

text \<open>The same invariants for a context: \<open>ctx_h c fs h\<close> holds when a subtree of black
  height \<open>h\<close> in the hole makes the whole tree balanced, \<open>ctx_c c fs r\<close> when a subtree whose
  top node is red exactly if \<open>r\<close> makes it free of red nodes with red children, and
  \<open>ctx_root_red c fs r\<close> tells whether the root is then red.\<close>

fun ctx_h :: "(nat \<Rightarrow> bool) \<Rightarrow> frame list \<Rightarrow> nat \<Rightarrow> bool" where
  "ctx_h c [] h = True"
| "ctx_h c (Lf p R # fs) h = (invh c R \<and> bh c R = h \<and> ctx_h c fs (h + (if c p then 0 else 1)))"
| "ctx_h c (Rt L p # fs) h = (invh c L \<and> bh c L = h \<and> ctx_h c fs (h + (if c p then 0 else 1)))"

fun ctx_c :: "(nat \<Rightarrow> bool) \<Rightarrow> frame list \<Rightarrow> bool \<Rightarrow> bool" where
  "ctx_c c [] r = True"
| "ctx_c c (Lf p R # fs) r = (invc c R \<and> (c p \<longrightarrow> \<not> r \<and> \<not> red_root c R) \<and> ctx_c c fs (c p))"
| "ctx_c c (Rt L p # fs) r = (invc c L \<and> (c p \<longrightarrow> \<not> r \<and> \<not> red_root c L) \<and> ctx_c c fs (c p))"

fun ctx_root_red :: "(nat \<Rightarrow> bool) \<Rightarrow> frame list \<Rightarrow> bool \<Rightarrow> bool" where
  "ctx_root_red c [] r = r"
| "ctx_root_red c (f # fs) r = ctx_root_red c fs (c (frame_addr f))"

text \<open>What \<open>delete_rebalance\<close> leaves alone: as \<open>same_data\<close>, but the colours may change.\<close>

definition same_rest :: "rb_tree_t \<Rightarrow> rb_tree_t \<Rightarrow> bool" where
  "same_rest t t' \<longleftrightarrow>
     tree_size t' = tree_size t \<and> max_size t' = max_size t \<and>
     free_node_head t' = free_node_head t \<and> free_node_tail t' = free_node_tail t \<and>
     node_block t' = node_block t \<and>
     (\<forall>a. range_value (mem t' a) = range_value (mem t a) \<and>
          range_offset (mem t' a) = range_offset (mem t a) \<and>
          traversal_state (mem t' a) = traversal_state (mem t a))"

text \<open>The tree of a handle is \<open>plug fs X\<close>, and no address occurs in it twice.\<close>

definition zip_at :: "rb_tree_t \<Rightarrow> frame list \<Rightarrow> ptree \<Rightarrow> bool" where
  "zip_at t fs X \<longleftrightarrow>
     tree_at (mem t) None (root t) (plug fs X) \<and> distinct (nodes_of (plug fs X))"

text \<open>
  The state of \<open>delete_rebalance\<close> at a node on the leftmost path. \<open>deficit t fs X Y\<close>: the
  subtree \<open>X\<close> in the hole is about to be replaced by \<open>Y\<close>, whose black height is one less
  than the context asks for (\<open>X\<close> is the node that \<open>delete_one_child\<close> removes and \<open>Y\<close> the
  child that takes its place). \<open>settled t t' fs fs' X Y\<close>: in \<open>t'\<close> the subtree \<open>X\<close> sits
  in the context \<open>fs'\<close>, replacing it by \<open>Y\<close> gives a red-black tree, and the nodes to the
  right of the hole are the same, in the same order.
\<close>

fun is_Lf :: "frame \<Rightarrow> bool" where
  "is_Lf (Lf p R) = True"
| "is_Lf (Rt L p) = False"

definition deficit :: "rb_tree_t \<Rightarrow> frame list \<Rightarrow> ptree \<Rightarrow> ptree \<Rightarrow> bool" where
  "deficit t fs X Y \<longleftrightarrow>
     zip_at t fs X \<and> (\<forall>f \<in> set fs. is_Lf f) \<and> set (nodes_of Y) \<subseteq> set (nodes_of X) \<and>
     invh (cols t) Y \<and> invc (cols t) Y \<and> \<not> red_root (cols t) Y \<and>
     ctx_h (cols t) fs (bh (cols t) Y + 1) \<and> ctx_c (cols t) fs False \<and>
     \<not> ctx_root_red (cols t) fs False"

definition settled ::
  "rb_tree_t \<Rightarrow> rb_tree_t \<Rightarrow> frame list \<Rightarrow> frame list \<Rightarrow> ptree \<Rightarrow> ptree \<Rightarrow> bool" where
  "settled t t' fs fs' X Y \<longleftrightarrow>
     zip_at t' fs' X \<and> (\<forall>f \<in> set fs'. is_Lf f) \<and> rbt (cols t') (plug fs' Y) \<and>
     same_rest t t' \<and> (\<forall>a. a \<notin> set (ctx_nodes fs) \<longrightarrow> cols t' a = cols t a) \<and>
     ctx_right fs' = ctx_right fs"

section \<open>Well-formed trees\<close>

text \<open>The range that a node holds.\<close>

definition rng :: "rb_tree_t \<Rightarrow> nat \<Rightarrow> rb_range_t" where
  "rng t a = \<lparr>rvalue = range_value (mem t a), roffset = range_offset (mem t a)\<rparr>"

text \<open>
  \<open>wf_tree t T\<close>: the nodes reachable from \<open>root\<close> form the tree \<open>T\<close> of distinct
  addresses with the parent pointers set, \<open>T\<close> is a red-black tree, the head of the
  free-list is not a node of the tree, and \<open>size\<close> counts the nodes.
\<close>

definition wf_tree :: "rb_tree_t \<Rightarrow> ptree \<Rightarrow> bool" where
  "wf_tree t T \<longleftrightarrow>
     zip_at t [] T \<and> rbt (cols t) T \<and>
     set_option (free_node_head t) \<inter> set (nodes_of T) = {} \<and>
     tree_size t = of_nat (length (nodes_of T))"

text \<open>The nodes on the leftmost path, and the state after \<open>traversal_state\<close> has been
  reset in a set of nodes, as the descent of the iterator does.\<close>

fun spine :: "ptree \<Rightarrow> nat list" where
  "spine Leaf = []"
| "spine (Node l a r) = a # spine l"

definition clear_ts :: "nat set \<Rightarrow> rb_tree_t \<Rightarrow> rb_tree_t" where
  "clear_ts S t =
     t\<lparr>mem := (\<lambda>a. if a \<in> S then (mem t a)\<lparr>traversal_state := False\<rparr> else mem t a)\<rparr>"

text \<open>
  The invariant of a traversal that pops without rebalancing: as \<open>wf_tree\<close>, but the tree
  need not be balanced, and no node of the leftmost path is marked as visited.
\<close>

definition nb_ok :: "rb_tree_t \<Rightarrow> ptree \<Rightarrow> bool" where
  "nb_ok t T \<longleftrightarrow>
     zip_at t [] T \<and>
     set_option (free_node_head t) \<inter> set (nodes_of T) = {} \<and>
     tree_size t = of_nat (length (nodes_of T)) \<and>
     (\<forall>a \<in> set (spine T). \<not> traversal_state (mem t a))"

section \<open>Scenarios\<close>

text \<open>The caller's \<open>rb_tree_t\<close> before \<open>rb_tree_create\<close> initialises it.\<close>

definition blank_tree :: rb_tree_t where
  "blank_tree = \<lparr>tree_size = 0, max_size = 0, root = None, free_node_head = None,
                  free_node_tail = None, node_block = None, mem = (\<lambda>_. zero_node)\<rparr>"

text \<open>\<open>new_tree n\<close> is the handle after a successful \<open>rb_tree_create(n, &tree)\<close>.\<close>

definition new_tree :: "u32 \<Rightarrow> rb_tree_t option" where
  "new_tree n = snd (rb_tree_create n (Some blank_tree) True)"

text \<open>A sequence of calls of \<open>rb_tree_insert\<close>, with the statuses they return.\<close>

fun insert_all ::
  "u32 list \<Rightarrow> rb_tree_t option \<Rightarrow> (rb_tree_status_t list \<times> rb_tree_t option) option" where
  "insert_all [] tree = Some ([], tree)"
| "insert_all (v # vs) tree =
     (case rb_tree_insert v tree of
        None \<Rightarrow> None
      | Some (st, tree1) \<Rightarrow>
          (case insert_all vs tree1 of
             None \<Rightarrow> None
           | Some (sts, tree2) \<Rightarrow> Some (st # sts, tree2)))"

text \<open>A tree of capacity 1 whose only node holds the range \<open>(0, 2^32 - 2)\<close>.\<close>

definition top_tree :: rb_tree_t where
  "top_tree = \<lparr>tree_size = 1, max_size = 1, root = Some 0, free_node_head = None,
                free_node_tail = None, node_block = Some 0,
                mem = (\<lambda>_. zero_node)(0 := \<lparr>range_value = 0, range_offset = 4294967294,
                                            color = BLACK, traversal_state = False,
                                            parent = None, left = None, right = None\<rparr>)\<rparr>"

text \<open>Two trees whose only node holds the range \<open>(5, 2)\<close>: one with a free node left,
  one with a full arena.\<close>

definition split_tree :: rb_tree_t where
  "split_tree = \<lparr>tree_size = 1, max_size = 2, root = Some 0, free_node_head = Some 1,
                  free_node_tail = Some 1, node_block = Some 0,
                  mem = (\<lambda>_. zero_node)(0 := \<lparr>range_value = 5, range_offset = 2,
                                              color = BLACK, traversal_state = False,
                                              parent = None, left = None, right = None\<rparr>)\<rparr>"

definition full_split_tree :: rb_tree_t where
  "full_split_tree = \<lparr>tree_size = 1, max_size = 1, root = Some 0, free_node_head = None,
                  free_node_tail = None, node_block = Some 0,
                  mem = (\<lambda>_. zero_node)(0 := \<lparr>range_value = 5, range_offset = 2,
                                              color = BLACK, traversal_state = False,
                                              parent = None, left = None, right = None\<rparr>)\<rparr>"

text \<open>
  Draining a tree, as the tests \<open>test_tree_traversed_and_deleted_inorder_with_rebalancing\<close>
  and \<open>..._without_rebalancing\<close> of the repository do: \<open>rb_tree_get_first_rb_node\<close>, then
  \<open>rb_tree_get_next_rb_node\<close> with \<open>should_pop = true\<close> on the same iterator and the same
  range until it returns a status other than \<open>RB_SUCCESS\<close> (\<open>RB_FAIL_NULL_NODE\<close>, once the
  iterator is \<open>NULL\<close>). \<open>rg\<close> is the caller's range; the ranges written to it are collected
  in the order of the calls, and returned with the tree that is left.
\<close>

partial_function (option) drain_loop ::
  "bool \<Rightarrow> rb_tree_t \<Rightarrow> nat option \<Rightarrow> rb_range_t \<Rightarrow> rb_range_t list \<Rightarrow>
   (rb_tree_t \<times> rb_range_t list) option" where
  "drain_loop reb t iter rg acc =
     (case rb_tree_get_next_rb_node (Some t) iter (Some rg) True reb of
        None \<Rightarrow> None
      | Some (st, t', iter', rg') \<Rightarrow>
          if st = RB_SUCCESS
          then (case (t', rg') of
                  (Some t1, Some r) \<Rightarrow> drain_loop reb t1 iter' r (acc @ [r])
                | _ \<Rightarrow> None)
          else Some (t, acc))"

definition drain :: "bool \<Rightarrow> rb_tree_t \<Rightarrow> rb_range_t \<Rightarrow> (rb_tree_t \<times> rb_range_t list) option" where
  "drain reb t rg =
     (case rb_tree_get_first_rb_node (Some t) (root t) of
        Some (st, Some t1, iter) \<Rightarrow> drain_loop reb t1 iter rg []
      | _ \<Rightarrow> None)"

section \<open>Evaluation\<close>

lemmas rb_defs =
  set_left_def set_right_def set_parent_def set_color_def set_value_def set_offset_def
  set_traversal_state_def pop_free_node_def push_free_node_def set_black_def set_red_def
  is_black_def is_red_def get_grandparent_def is_root_def is_left_child_def get_sibling_def
  get_uncle_def has_left_child_def has_right_child_def remove_from_parent_def
  rb_tree_is_empty_def rb_tree_is_full_def zero_node_def rb_tree_create_def
  swap_parents_def rotate_left_def rotate_right_def create_rb_node_def
  get_left_successor_def get_right_successor_def get_successor_def swap_values_def
  swap_offsets_def replace_node_def delete_case_2_def delete_case_5_def delete_case_6_def
  delete_cases_3_to_6_def delete_rebalance_body_def delete_one_child_def delete_rb_node_def are_consecutive_def
  insert_or_merge_body_def try_binary_insert_or_merge_def insert_rebalance_body_def
  delete_rb_node_without_rebalancing_def rb_tree_binary_search_def rb_tree_clear_def
  rb_tree_insert_def rb_tree_delete_def rb_tree_destroy_def rb_tree_get_first_rb_node_def
  rb_tree_get_next_rb_node_def UINT32_MAX_def MAX_TREE_SIZE_def blank_tree_def new_tree_def
  rightmost.simps leftmost.simps delete_rebalance.simps insert_or_merge_loop.simps
  try_insert_rebalance.simps binary_search_loop.simps clear_loop.simps descend_left.simps
  ascend_visited.simps drain_def drain_loop.simps

section \<open>Creation and the public predicates\<close>

lemma create_status:
  "fst (rb_tree_create max_sz (Some t) calloc_ok) =
     (if max_sz = 0 then RB_FAIL_SIZE_ZERO
      else if max_sz > 2147483648 then RB_FAIL_EXCEEDED_MAX_SIZE
      else if calloc_ok then RB_SUCCESS else RB_FAIL_MEM_ERR)"
  by (simp add: rb_tree_create_def MAX_TREE_SIZE_def UINT32_MAX_def Let_def)

text \<open>
  C8, as stated, at the top of the claimed bound: \<open>(2^32 / 2) + 1 = 2147483649\<close> lies
  within \<open>1 \<le> max_size \<le> (2^32 / 2) + 1\<close>, and \<open>rb_tree_create\<close> refuses it, because
  \<open>MAX_TREE_SIZE\<close> is \<open>(UINT32_MAX / 2) + 1 = 2^31\<close>.
\<close>

theorem create_bound_counterexample:
  "unat (2147483649 :: u32) = 2 ^ 32 div 2 + 1 \<and>
   fst (rb_tree_create 2147483649 (Some blank_tree) True) = RB_FAIL_EXCEEDED_MAX_SIZE"
  by (simp add: create_status)

text \<open>
  C8, amended: \<open>rb_tree_create\<close> accepts exactly the capacities
  \<open>1 \<le> max_size \<le> (UINT32_MAX / 2) + 1 = 2^31\<close>. It returns \<open>RB_FAIL_SIZE_ZERO\<close> exactly
  for \<open>max_size = 0\<close>, \<open>RB_FAIL_EXCEEDED_MAX_SIZE\<close> exactly above \<open>2^31\<close>, and within the
  bound \<open>RB_SUCCESS\<close> when the allocation succeeds and \<open>RB_FAIL_MEM_ERR\<close> when it fails.
\<close>

theorem create_accepts_up_to_2_31:
  "(fst (rb_tree_create max_sz (Some t) calloc_ok) = RB_FAIL_SIZE_ZERO \<longleftrightarrow> unat max_sz = 0) \<and>
   (fst (rb_tree_create max_sz (Some t) calloc_ok) = RB_FAIL_EXCEEDED_MAX_SIZE
      \<longleftrightarrow> 2 ^ 31 < unat max_sz) \<and>
   (fst (rb_tree_create max_sz (Some t) calloc_ok) = RB_SUCCESS
      \<longleftrightarrow> 1 \<le> unat max_sz \<and> unat max_sz \<le> 2 ^ 31 \<and> calloc_ok) \<and>
   (fst (rb_tree_create max_sz (Some t) calloc_ok) = RB_FAIL_MEM_ERR
      \<longleftrightarrow> 1 \<le> unat max_sz \<and> unat max_sz \<le> 2 ^ 31 \<and> \<not> calloc_ok)"
proof -
  have z: "max_sz = 0 \<longleftrightarrow> unat max_sz = 0"
    by (simp add: unat_eq_0)
  have g: "max_sz > 2147483648 \<longleftrightarrow> 2 ^ 31 < unat max_sz"
    by (simp add: word_less_nat_alt)
  show ?thesis
    unfolding create_status z g by auto
qed

lemma create_failure_state:
  "rb_tree_create max_sz (Some t0) calloc_ok = (st, h) \<Longrightarrow>
   st = RB_FAIL_SIZE_ZERO \<or> st = RB_FAIL_EXCEEDED_MAX_SIZE \<Longrightarrow>
   \<exists>t. h = Some t \<and> max_size t = 0 \<and> tree_size t = 0"
  by (auto simp: rb_tree_create_def Let_def split: if_splits)

lemma create_mem_err_state:
  "rb_tree_create max_sz (Some t0) calloc_ok = (RB_FAIL_MEM_ERR, h) \<Longrightarrow>
   \<exists>t. h = Some t \<and> max_size t = max_sz \<and> tree_size t = max_sz \<and> max_sz \<noteq> 0"
  by (auto simp: rb_tree_create_def Let_def split: if_splits)

lemma null_handle_predicates: "\<not> rb_tree_is_empty None \<and> rb_tree_is_full None"
  by (simp add: rb_tree_is_empty_def rb_tree_is_full_def)

text \<open>The two predicates on the handle that a failed \<open>rb_tree_create\<close> leaves: the tree is
  full after every failure, and it is empty after every failure but \<open>RB_FAIL_MEM_ERR\<close>.\<close>

lemma failed_create_predicates:
  "rb_tree_create max_sz (Some t0) calloc_ok = (st, h) \<Longrightarrow> st \<noteq> RB_SUCCESS \<Longrightarrow>
   rb_tree_is_full h \<and> (rb_tree_is_empty h \<longleftrightarrow> st \<noteq> RB_FAIL_MEM_ERR)"
  by (auto simp: rb_tree_create_def Let_def rb_tree_is_empty_def rb_tree_is_full_def
           split: if_splits)


section \<open>The NULL tree handle\<close>

text \<open>
  C3, as stated, for \<open>rb_tree_get_next_rb_node\<close>: called with a \<open>NULL\<close> tree handle (and
  a \<open>NULL\<close> iterator) it returns \<open>RB_FAIL_NULL_NODE\<close>, not \<open>RB_FAIL_NULL_TREE\<close>.
\<close>

theorem iterator_next_null_tree_counterexample:
  "map_option fst
     (rb_tree_get_next_rb_node None None (Some \<lparr>rvalue = 0, roffset = 0\<rparr>) False False)
     = Some RB_FAIL_NULL_NODE \<and>
   map_option fst
     (rb_tree_get_next_rb_node None None (Some \<lparr>rvalue = 0, roffset = 0\<rparr>) False False)
     \<noteq> Some RB_FAIL_NULL_TREE"
  by (simp add: rb_tree_get_next_rb_node_def)

text \<open>
  C3, amended: \<open>rb_tree_create\<close>, \<open>rb_tree_destroy\<close>, \<open>rb_tree_clear\<close>, \<open>rb_tree_insert\<close>,
  \<open>rb_tree_delete\<close> and \<open>rb_tree_get_first_rb_node\<close> return \<open>RB_FAIL_NULL_TREE\<close> on a \<open>NULL\<close>
  tree handle and change nothing (the handle stays \<open>NULL\<close>, \<open>*iter\<close> keeps its value).
  \<open>rb_tree_get_next_rb_node\<close> does not test the tree handle: on a \<open>NULL\<close> handle it returns
  \<open>RB_FAIL_NULL_NODE\<close> for a \<open>NULL\<close> iterator and \<open>RB_FAIL_NULL_RANGE\<close> for a \<open>NULL\<close> range,
  leaving its arguments as they were, and it never returns \<open>RB_FAIL_NULL_TREE\<close>.
\<close>

theorem null_tree_handle:
  "rb_tree_create max_sz None calloc_ok = (RB_FAIL_NULL_TREE, None) \<and>
   rb_tree_destroy None = (RB_FAIL_NULL_TREE, None) \<and>
   rb_tree_clear None = Some (RB_FAIL_NULL_TREE, None) \<and>
   rb_tree_insert v None = Some (RB_FAIL_NULL_TREE, None) \<and>
   rb_tree_delete v None = Some (RB_FAIL_NULL_TREE, None) \<and>
   rb_tree_get_first_rb_node None iter = Some (RB_FAIL_NULL_TREE, None, iter) \<and>
   rb_tree_get_next_rb_node None None range_out pop rebalance
     = Some (RB_FAIL_NULL_NODE, None, None, range_out) \<and>
   rb_tree_get_next_rb_node None (Some n) None pop rebalance
     = Some (RB_FAIL_NULL_RANGE, None, Some n, None) \<and>
   map_option fst (rb_tree_get_next_rb_node tree iter range_out pop rebalance)
     \<noteq> Some RB_FAIL_NULL_TREE"
  by (auto simp: rb_tree_create_def rb_tree_destroy_def rb_tree_clear_def rb_tree_insert_def
        rb_tree_delete_def rb_tree_get_first_rb_node_def rb_tree_get_next_rb_node_def Let_def
      split: option.splits)

section \<open>The top of the value space\<close>

text \<open>
  C9: \<open>are_consecutive(2^32 - 1, 0)\<close> is false, and inserting \<open>2^32 - 1\<close> into a tree whose
  only node is the root with the range \<open>(0, 2^32 - 2)\<close> succeeds and only raises the offset
  of that node to \<open>2^32 - 1\<close>: the tree is the single range \<open>(0, 2^32 - 1)\<close>.
\<close>

theorem insert_top_value_merges:
  assumes "root t = Some r"
    and "range_value (mem t r) = 0" and "range_offset (mem t r) = 4294967294"
    and "left (mem t r) = None" and "right (mem t r) = None"
    and "node_block t \<noteq> None" and "max_size t \<noteq> 0"
  shows "\<not> are_consecutive 4294967295 0 \<and>
         rb_tree_insert 4294967295 (Some t) = Some (RB_SUCCESS, Some (set_offset r 4294967295 t))"
  using assms
  by (simp add: rb_tree_insert_def try_binary_insert_or_merge_def insert_or_merge_loop.simps
        insert_or_merge_body_def are_consecutive_def UINT32_MAX_def get_right_successor_def)

theorem insert_top_value_merges_witness:
  "root top_tree = Some 0 \<and> range_value (mem top_tree 0) = 0 \<and>
   range_offset (mem top_tree 0) = 4294967294 \<and>
   left (mem top_tree 0) = None \<and> right (mem top_tree 0) = None \<and>
   node_block top_tree \<noteq> None \<and> max_size top_tree \<noteq> 0 \<and>
   \<not> are_consecutive 4294967295 0 \<and>
   rb_tree_insert 4294967295 (Some top_tree)
     = Some (RB_SUCCESS, Some (set_offset 0 4294967295 top_tree)) \<and>
   range_value (mem (set_offset 0 4294967295 top_tree) 0) = 0 \<and>
   range_offset (mem (set_offset 0 4294967295 top_tree) 0) = 4294967295"
proof -
  have h: "root top_tree = Some 0" "range_value (mem top_tree 0) = 0"
    "range_offset (mem top_tree 0) = 4294967294"
    "left (mem top_tree 0) = None" "right (mem top_tree 0) = None"
    "node_block top_tree \<noteq> None" "max_size top_tree \<noteq> 0"
    by (simp_all add: top_tree_def)
  have r: "range_value (mem (set_offset 0 4294967295 top_tree) 0) = 0 \<and>
           range_offset (mem (set_offset 0 4294967295 top_tree) 0) = 4294967295"
    by (simp add: top_tree_def set_offset_def)
  show ?thesis
    using insert_top_value_merges [OF h] h r by simp
qed

section \<open>Scenarios where the code departs from its documentation\<close>

text \<open>
  C1, at the scenario of the repository's own test \<open>test_deletes_node_inside_of_range\<close>:
  after \<open>rb_tree_create(10)\<close> and the inserts \<open>0,1,2,5,6,7,8,9,13,14,16,18\<close>, the call
  \<open>rb_tree_delete(6)\<close> splits the range \<open>(5,4)\<close> and returns \<open>RB_SUCCESS\<close>. The new node
  \<open>(7,2)\<close> is red and is the left child of the red node \<open>(13,1)\<close>: \<open>rb_tree_delete\<close> never
  calls \<open>try_insert_rebalance\<close> on the node it inserts, so a red node has a red child.
\<close>

theorem delete_split_red_red:
  "(case insert_all [0, 1, 2, 5, 6, 7, 8, 9, 13, 14, 16, 18] (new_tree 10) of
      Some (sts, tree) \<Rightarrow>
        set sts = {RB_SUCCESS} \<and>
        (case rb_tree_delete 6 tree of
           Some (st, Some t) \<Rightarrow>
             st = RB_SUCCESS \<and> tree_size t = 6 \<and>
             root t = Some 1 \<and> right (mem t 1) = Some 3 \<and> left (mem t 3) = Some 2 \<and>
             left (mem t 2) = Some 5 \<and>
             range_value (mem t 1) = 5 \<and> range_offset (mem t 1) = 0 \<and>
             range_value (mem t 2) = 13 \<and> range_offset (mem t 2) = 1 \<and>
             range_value (mem t 5) = 7 \<and> range_offset (mem t 5) = 2 \<and>
             is_red t (Some 2) \<and> is_red t (Some 5)
         | _ \<Rightarrow> False)
    | None \<Rightarrow> False)"
  by (simp add: rb_defs upt_rec Let_def cong: let_weak_cong)

text \<open>
  C2, after \<open>rb_tree_create(10)\<close> and the inserts \<open>0,2,4,6\<close> (four nodes): \<open>rb_tree_clear\<close>
  returns \<open>RB_SUCCESS\<close> with \<open>size = 1\<close>, so the tree is not empty. The loop recycles a
  child without visiting the child's own subtree, and it never resets \<open>tree->root\<close>: the
  root pointer still leads to the node holding 2, and the search finds 2.
\<close>

theorem clear_leaves_nodes_behind:
  "(case insert_all [0, 2, 4, 6] (new_tree 10) of
      Some (sts, Some t0) \<Rightarrow>
        set sts = {RB_SUCCESS} \<and> tree_size t0 = 4 \<and>
        (case rb_tree_clear (Some t0) of
           Some (st, Some t) \<Rightarrow>
             st = RB_SUCCESS \<and> tree_size t = 1 \<and> \<not> rb_tree_is_empty (Some t) \<and>
             root t = Some 1 \<and> rb_tree_binary_search t 2 = Some (Some 1)
         | _ \<Rightarrow> False)
    | _ \<Rightarrow> False)"
  by (simp add: rb_defs upt_rec Let_def cong: let_weak_cong)

text \<open>
  C7, after \<open>rb_tree_create(3)\<close>, \<open>insert(5)\<close>, \<open>insert(6)\<close>: the tree is the one range
  \<open>(5,1)\<close>, which covers 6. A second \<open>insert(6)\<close> returns \<open>RB_SUCCESS\<close>, not
  \<open>RB_FAIL_INSERT_DUPLICATE\<close>, and adds the node \<open>(6,0)\<close>: the descent takes the branch
  \<open>value > node->range.value\<close> before it reaches the duplicate branch.
\<close>

theorem insert_twice_accepted:
  "(case insert_all [5, 6] (new_tree 3) of
      Some (sts, Some t0) \<Rightarrow>
        sts = [RB_SUCCESS, RB_SUCCESS] \<and> tree_size t0 = 1 \<and> root t0 = Some 0 \<and>
        range_value (mem t0 0) = 5 \<and> range_offset (mem t0 0) = 1 \<and>
        (case rb_tree_insert 6 (Some t0) of
           Some (st, Some t) \<Rightarrow>
             st = RB_SUCCESS \<and> tree_size t = 2 \<and> root t = Some 0 \<and>
             range_value (mem t 0) = 5 \<and> range_offset (mem t 0) = 1 \<and>
             right (mem t 0) = Some 1 \<and>
             range_value (mem t 1) = 6 \<and> range_offset (mem t 1) = 0
         | _ \<Rightarrow> False)
    | _ \<Rightarrow> False)"
  by (simp add: rb_defs upt_rec Let_def cong: let_weak_cong)

text \<open>
  C4, after \<open>rb_tree_create(3)\<close> and \<open>insert\<close> of 5, 6, 7, 6, which all return
  \<open>RB_SUCCESS\<close>: the root holds the range \<open>(5,2)\<close> and its right child the range \<open>(6,0)\<close>.
  \<open>rb_tree_delete(6)\<close> finds 6 in the root, strictly inside its range, and calls
  \<open>try_binary_insert_or_merge(7)\<close> for the upper part. That call goes right from the
  root, merges 7 into the node \<open>(6,0)\<close> and returns \<open>RB_SUCCESS\<close> without a new node, so
  \<open>upper_node\<close> is still \<open>NULL\<close> and \<open>assert(upper_node != NULL)\<close> fails: the call returns
  neither \<open>RB_SUCCESS\<close> nor \<open>RB_FAIL_TREE_FULL\<close>.
\<close>

theorem delete_split_assertion_fails:
  "(case insert_all [5, 6, 7, 6] (new_tree 3) of
      Some (sts, Some t) \<Rightarrow>
        sts = [RB_SUCCESS, RB_SUCCESS, RB_SUCCESS, RB_SUCCESS] \<and>
        tree_size t = 2 \<and> root t = Some 0 \<and>
        range_value (mem t 0) = 5 \<and> range_offset (mem t 0) = 2 \<and>
        right (mem t 0) = Some 1 \<and>
        range_value (mem t 1) = 6 \<and> range_offset (mem t 1) = 0 \<and>
        rb_tree_binary_search t 6 = Some (Some 0) \<and>
        map_option (\<lambda>(st, t1, upper_node).
                      (st, upper_node, range_value (mem t1 1), range_offset (mem t1 1)))
          (try_binary_insert_or_merge 7 t) = Some (RB_SUCCESS, None, 6, 1) \<and>
        rb_tree_delete 6 (Some t) = None
    | _ \<Rightarrow> False)"
  by (simp add: rb_defs upt_rec Let_def cong: let_weak_cong)

text \<open>
  C5, after \<open>rb_tree_create(10)\<close> and \<open>insert\<close> of 5, 6, 6, 8, 5, which all return
  \<open>RB_SUCCESS\<close>: the second \<open>insert(6)\<close> adds a node \<open>(6,0)\<close> beside the range \<open>(5,1)\<close>,
  \<open>insert(8)\<close> rotates that node to the root, and \<open>insert(5)\<close> then finds 5 adjacent to the
  root and widens it to \<open>(5,1)\<close>. The tree has three nodes, and draining it gives
  \<open>(5,1)\<close>, \<open>(5,1)\<close>, \<open>(8,0)\<close>, with rebalancing and without: the values are not
  strictly ascending and the range from 5 to 6 is visited twice.
\<close>

theorem drain_repeats_range:
  "(case insert_all [5, 6, 6, 8, 5] (new_tree 10) of
      Some (sts, Some t) \<Rightarrow>
        sts = [RB_SUCCESS, RB_SUCCESS, RB_SUCCESS, RB_SUCCESS, RB_SUCCESS] \<and>
        tree_size t = 3 \<and>
        map_option snd (drain True t \<lparr>rvalue = 0, roffset = 0\<rparr>)
          = Some [\<lparr>rvalue = 5, roffset = 1\<rparr>, \<lparr>rvalue = 5, roffset = 1\<rparr>,
                  \<lparr>rvalue = 8, roffset = 0\<rparr>] \<and>
        map_option snd (drain False t \<lparr>rvalue = 0, roffset = 0\<rparr>)
          = Some [\<lparr>rvalue = 5, roffset = 1\<rparr>, \<lparr>rvalue = 5, roffset = 1\<rparr>,
                  \<lparr>rvalue = 8, roffset = 0\<rparr>]
    | _ \<Rightarrow> False)"
  by (simp add: rb_defs upt_rec Let_def cong: let_weak_cong)

section \<open>Splitting a range on delete\<close>

lemma tree_at_None [simp]: "tree_at m par None T \<longleftrightarrow> T = Leaf"
  by (cases T) auto

lemma tree_at_Leaf [simp]: "tree_at m par p Leaf \<longleftrightarrow> p = None"
  by (cases p) auto

lemma tree_at_Node: "tree_at m par p (Node l a r) \<longleftrightarrow>
   p = Some a \<and> parent (m a) = par \<and> tree_at m (Some a) (left (m a)) l \<and> tree_at m (Some a) (right (m a)) r"
  by (cases p) auto

lemma tree_at_Some: "tree_at m par (Some a) T \<longleftrightarrow>
   (\<exists>l r. T = Node l a r \<and> parent (m a) = par \<and> tree_at m (Some a) (left (m a)) l \<and> tree_at m (Some a) (right (m a)) r)"
  by (cases T) auto

lemma tree_at_frame:
  "\<forall>a \<in> set (nodes_of T). parent (m' a) = parent (m a) \<and> left (m' a) = left (m a) \<and> right (m' a) = right (m a)
   \<Longrightarrow> tree_at m' par p T = tree_at m par p T"
proof (induction T arbitrary: par p)
  case Leaf
  then show ?case by (cases p) auto
next
  case (Node l a r)
  then show ?case by (cases p) auto
qed

lemma nodes_ins_leftmost [simp]: "nodes_of (ins_leftmost u T) = u # nodes_of T"
  by (induction T) auto

lemma nodes_ins_after:
  "distinct (nodes_of T) \<Longrightarrow> nodes_of T = xs @ n # ys \<Longrightarrow> nodes_of (ins_after n u T) = xs @ n # u # ys"
proof (induction T arbitrary: xs ys)
  case Leaf
  then show ?case by simp
next
  case (Node l a r)
  show ?case
  proof (cases "a = n")
    case True
    with Node.prems have "xs = nodes_of l \<and> ys = nodes_of r"
      by (auto simp: append_eq_append_conv2 append_eq_Cons_conv Cons_eq_append_conv)
    with True show ?thesis by simp
  next
    case False
    show ?thesis
    proof (cases "n \<in> set (nodes_of l)")
      case True
      then obtain xs' ys' where l: "nodes_of l = xs' @ n # ys'"
        by (auto simp: in_set_conv_decomp)
      with Node.prems False have "xs = xs' \<and> ys = ys' @ a # nodes_of r"
        by (auto simp: append_eq_append_conv2 append_eq_Cons_conv Cons_eq_append_conv)
      moreover have "nodes_of (ins_after n u l) = xs' @ n # u # ys'"
        using Node.IH(1)[OF _ l] Node.prems by simp
      ultimately show ?thesis using False True by simp
    next
      case nl: False
      from Node.prems False nl have "n \<in> set (nodes_of r)"
        by (metis Un_iff in_set_conv_decomp nodes_of.simps(2) set_ConsD set_append)
      then obtain xs' ys' where r: "nodes_of r = xs' @ n # ys'"
        by (auto simp: in_set_conv_decomp)
      with Node.prems False nl have "xs = nodes_of l @ a # xs' \<and> ys = ys'"
        by (auto simp: append_eq_append_conv2 append_eq_Cons_conv Cons_eq_append_conv)
      moreover have "nodes_of (ins_after n u r) = xs' @ n # u # ys'"
        using Node.IH(2)[OF _ r] Node.prems by simp
      ultimately show ?thesis using False nl by simp
    qed
  qed
qed

lemma are_consecutive_nat: "are_consecutive a b \<longleftrightarrow> unat a + 1 = unat b"
proof
  assume "are_consecutive a b"
  then have a: "a \<noteq> 4294967295" and b: "a + 1 = b"
    by (auto simp: are_consecutive_def UINT32_MAX_def)
  have "unat a < 2 ^ 32" using unsigned_less [of a] by simp
  moreover have "unat a \<noteq> 4294967295"
    using a by (simp add: word_unat_eq_iff)
  ultimately have "unat a + 1 < 2 ^ 32" by simp
  then have "unat (a + 1) = unat a + 1"
    by (simp add: unat_word_ariths)
  with b show "unat a + 1 = unat b" by simp
next
  assume h: "unat a + 1 = unat b"
  have "unat b < 2 ^ 32" using unsigned_less [of b] by simp
  with h have lt: "unat a + 1 < 2 ^ 32" by simp
  then have "a \<noteq> 4294967295"
    by auto
  moreover have "unat (a + 1) = unat a + 1"
    using lt by (simp add: unat_word_ariths)
  then have "a + 1 = b" using h by (simp add: word_unat_eq_iff)
  ultimately show "are_consecutive a b"
    by (simp add: are_consecutive_def UINT32_MAX_def)
qed


lemma binary_search_None: "binary_search_loop t v None = Some None"
  by (subst binary_search_loop.simps) simp

lemma binary_search_Some:
  "binary_search_loop t v (Some a) =
     (if range_value (mem t a) \<le> v \<and> range_value (mem t a) + range_offset (mem t a) \<ge> v
      then Some (Some a)
      else if range_value (mem t a) > v then binary_search_loop t v (left (mem t a))
      else binary_search_loop t v (right (mem t a)))"
  by (subst binary_search_loop.simps) simp

lemma binary_search_in_tree:
  "tree_at (mem t) par p T \<Longrightarrow> binary_search_loop t v p = Some (Some n) \<Longrightarrow> n \<in> set (nodes_of T)"
proof (induction T arbitrary: par p)
  case Leaf
  then show ?case by (simp add: binary_search_None)
next
  case (Node l a r)
  from Node.prems(1) have p: "p = Some a"
    and tl: "tree_at (mem t) (Some a) (left (mem t a)) l"
    and tr: "tree_at (mem t) (Some a) (right (mem t a)) r"
    by (auto simp: tree_at_Node)
  define A where "A = (range_value (mem t a) \<le> v \<and> range_value (mem t a) + range_offset (mem t a) \<ge> v)"
  define B where "B = (range_value (mem t a) > v)"
  from Node.prems(2) have "binary_search_loop t v (Some a) = Some (Some n)"
    unfolding p .
  then have "(if A then Some (Some a)
              else if B then binary_search_loop t v (left (mem t a))
              else binary_search_loop t v (right (mem t a))) = Some (Some n)"
    unfolding A_def B_def by (subst (asm) binary_search_Some) assumption
  then consider "n = a"
    | "binary_search_loop t v (left (mem t a)) = Some (Some n)"
    | "binary_search_loop t v (right (mem t a)) = Some (Some n)"
    by (cases A; cases B; simp)
  then show ?case
  proof cases
    case 1
    then show ?thesis by simp
  next
    case 2
    from Node.IH(1)[OF tl 2] show ?thesis by simp
  next
    case 3
    from Node.IH(2)[OF tr 3] show ?thesis by simp
  qed
qed

text \<open>The fields of a popped node and of the tree after \<open>create_rb_node\<close>.\<close>

lemma create_rb_node_full:
  "free_node_tail t = None \<Longrightarrow> create_rb_node v c t = (None, t)"
  by (simp add: create_rb_node_def pop_free_node_def)

lemma create_rb_node_some:
  assumes "free_node_tail t = Some u"
  shows "\<exists>t1. create_rb_node v c t = (Some u, t1) \<and> root t1 = root t \<and>
           mem t1 = (mem t)(u := \<lparr>range_value = v, range_offset = 0, color = c,
                                   traversal_state = False, parent = None, left = None, right = None\<rparr>)"
  using assms by (simp add: create_rb_node_def pop_free_node_def Let_def)

lemma descend_new_left:
  assumes "tree_at (mem t) par (Some a) T" and "distinct (nodes_of T)"
    and "\<forall>x \<in> set (nodes_of T). unat v + 1 < lo (mem t) x"
    and "free_node_tail t = Some u" and "u \<notin> set (nodes_of T)"
  shows "\<exists>t' y. insert_or_merge_loop v t a = Some (RB_SUCCESS, t', Some u) \<and>
           tree_at (mem t') par (Some a) (ins_leftmost u T) \<and> root t' = root t \<and>
           y \<in> set (nodes_of T) \<and> mem t' u = new_leaf v y \<and>
           (\<forall>x. x \<noteq> u \<and> x \<notin> set (nodes_of T) \<longrightarrow> mem t' x = mem t x) \<and>
           (\<forall>x. x \<noteq> u \<longrightarrow> range_value (mem t' x) = range_value (mem t x) \<and>
                             range_offset (mem t' x) = range_offset (mem t x))"
  using assms
proof (induction T arbitrary: a par)
  case Leaf
  then show ?case by simp
next
  case (Node l b r)
  from Node.prems(1) have ab: "a = b" by simp
  from Node.prems(1) have pa: "parent (mem t b) = par"
    and tl: "tree_at (mem t) (Some b) (left (mem t b)) l"
    and tr: "tree_at (mem t) (Some b) (right (mem t b)) r"
    by auto
  from Node.prems(3) have lt: "unat v + 1 < lo (mem t) b" by simp
  then have nc: "\<not> are_consecutive v (range_value (mem t b))"
    by (simp add: are_consecutive_nat lo_def)
  from lt have less: "v < range_value (mem t b)"
    by (simp add: word_less_nat_alt lo_def)
  have ub: "u \<noteq> b" using Node.prems(5) by auto
  have ur: "u \<notin> set (nodes_of r)" using Node.prems(5) by auto
  have br: "b \<notin> set (nodes_of r)" using Node.prems(2) by auto
  have bl: "b \<notin> set (nodes_of l)" using Node.prems(2) by auto
  have lr: "set (nodes_of l) \<inter> set (nodes_of r) = {}" using Node.prems(2) by auto
  show ?case
  proof (cases "left (mem t b)")
    case None
    with tl have l: "l = Leaf" by simp
    obtain t1 where c: "create_rb_node v RED t = (Some u, t1)" and r1: "root t1 = root t"
      and m1: "mem t1 = (mem t)(u := \<lparr>range_value = v, range_offset = 0, color = RED,
                 traversal_state = False, parent = None, left = None, right = None\<rparr>)"
      using create_rb_node_some [OF Node.prems(4)] by blast
    define t' where "t' = set_left b (Some u) (set_parent u (Some b) t1)"
    have res: "insert_or_merge_loop v t b = Some (RB_SUCCESS, t', Some u)"
      by (subst insert_or_merge_loop.simps) (simp add: insert_or_merge_body_def nc less None c t'_def)
    have mt': "mem t' = (mem t)(u := new_leaf v b, b := (mem t b)\<lparr>left := Some u\<rparr>)"
      using ub by (simp add: t'_def set_left_def set_parent_def m1 new_leaf_def)
    have rt: "root t' = root t"
      by (simp add: t'_def set_left_def set_parent_def r1)
    have "tree_at (mem t') (Some b) (right (mem t b)) r = tree_at (mem t) (Some b) (right (mem t b)) r"
      by (rule tree_at_frame) (use ur br in \<open>auto simp: mt'\<close>)
    with tr have tr': "tree_at (mem t') (Some b) (right (mem t b)) r" by simp
    have shape: "tree_at (mem t') par (Some b) (ins_leftmost u (Node l b r))"
      using tr' ub pa l by (simp add: mt' new_leaf_def)
    have mu: "mem t' u = new_leaf v b" using ub by (simp add: mt')
    have fr: "\<forall>x. x \<noteq> u \<and> x \<notin> set (nodes_of (Node l b r)) \<longrightarrow> mem t' x = mem t x"
      by (simp add: mt')
    have pay: "\<forall>x. x \<noteq> u \<longrightarrow> range_value (mem t' x) = range_value (mem t x) \<and>
                             range_offset (mem t' x) = range_offset (mem t x)"
      by (simp add: mt')
    have "b \<in> set (nodes_of (Node l b r))" by simp
    with res shape rt mu fr pay show ?thesis
      unfolding ab by blast
  next
    case (Some a')
    have step: "insert_or_merge_loop v t b = insert_or_merge_loop v t a'"
      by (subst insert_or_merge_loop.simps) (simp add: insert_or_merge_body_def nc less Some)
    have tl': "tree_at (mem t) (Some b) (Some a') l" using tl Some by simp
    have dl: "distinct (nodes_of l)" using Node.prems(2) by simp
    have bl3: "\<forall>x \<in> set (nodes_of l). unat v + 1 < lo (mem t) x" using Node.prems(3) by simp
    have ul: "u \<notin> set (nodes_of l)" using Node.prems(5) by simp
    from Node.IH(1) [OF tl' dl bl3 Node.prems(4) ul]
    obtain t' y where res: "insert_or_merge_loop v t a' = Some (RB_SUCCESS, t', Some u)"
      and sh: "tree_at (mem t') (Some b) (Some a') (ins_leftmost u l)" and rt: "root t' = root t"
      and y: "y \<in> set (nodes_of l)" and mu: "mem t' u = new_leaf v y"
      and fr: "\<forall>x. x \<noteq> u \<and> x \<notin> set (nodes_of l) \<longrightarrow> mem t' x = mem t x"
      and pay: "\<forall>x. x \<noteq> u \<longrightarrow> range_value (mem t' x) = range_value (mem t x) \<and>
                             range_offset (mem t' x) = range_offset (mem t x)"
      by blast
    have mb: "mem t' b = mem t b" using fr ub bl by simp
    have "tree_at (mem t') (Some b) (right (mem t b)) r = tree_at (mem t) (Some b) (right (mem t b)) r"
      by (rule tree_at_frame) (use fr ur lr in auto)
    with tr have tr': "tree_at (mem t') (Some b) (right (mem t b)) r" by simp
    have shape: "tree_at (mem t') par (Some b) (ins_leftmost u (Node l b r))"
      using sh tr' mb pa Some by simp
    have y': "y \<in> set (nodes_of (Node l b r))" using y by simp
    have fr': "\<forall>x. x \<noteq> u \<and> x \<notin> set (nodes_of (Node l b r)) \<longrightarrow> mem t' x = mem t x"
      using fr by simp
    from step res have res': "insert_or_merge_loop v t b = Some (RB_SUCCESS, t', Some u)" by simp
    from res' shape rt y' mu fr' pay show ?thesis
      unfolding ab by blast
  qed
qed


lemma descend_new_left_full:
  assumes "tree_at (mem t) par (Some a) T"
    and "\<forall>x \<in> set (nodes_of T). unat v + 1 < lo (mem t) x"
    and "free_node_tail t = None"
  shows "insert_or_merge_loop v t a = Some (RB_FAIL_TREE_FULL, t, None)"
  using assms
proof (induction T arbitrary: a par)
  case Leaf
  then show ?case by simp
next
  case (Node l b r)
  from Node.prems(1) have ab: "a = b" by simp
  from Node.prems(1) have tl: "tree_at (mem t) (Some b) (left (mem t b)) l"
    by auto
  from Node.prems(2) have lt: "unat v + 1 < lo (mem t) b" by simp
  then have nc: "\<not> are_consecutive v (range_value (mem t b))"
    by (simp add: are_consecutive_nat lo_def)
  from lt have less: "v < range_value (mem t b)"
    by (simp add: word_less_nat_alt lo_def)
  show ?case
  proof (cases "left (mem t b)")
    case None
    show ?thesis
      unfolding ab
      by (subst insert_or_merge_loop.simps)
         (simp add: insert_or_merge_body_def nc less None create_rb_node_full [OF Node.prems(3)])
  next
    case (Some a')
    have step: "insert_or_merge_loop v t b = insert_or_merge_loop v t a'"
      by (subst insert_or_merge_loop.simps) (simp add: insert_or_merge_body_def nc less Some)
    have tl': "tree_at (mem t) (Some b) (Some a') l" using tl Some by simp
    have bl3: "\<forall>x \<in> set (nodes_of l). unat v + 1 < lo (mem t) x" using Node.prems(2) by simp
    from Node.IH(1) [OF tl' bl3 Node.prems(3)] step show ?thesis
      unfolding ab by simp
  qed
qed

text \<open>The four tests of the descent at a node, in terms of the numbers.\<close>

lemma hi_word: "hi m b < 2 ^ 32 \<Longrightarrow> unat (range_value (m b) + range_offset (m b)) = hi m b"
  by (simp add: hi_def unat_word_ariths)

lemma at_split_node:
  assumes "hi (mem t) b < 2 ^ 32" and "lo (mem t) b < unat v" and "unat v \<le> hi (mem t) b"
  shows "\<not> are_consecutive v (range_value (mem t b))"
    and "\<not> v < range_value (mem t b)"
    and "\<not> are_consecutive (range_value (mem t b) + range_offset (mem t b)) v"
    and "v > range_value (mem t b)"
  using assms
  by (simp_all add: are_consecutive_nat hi_word word_less_nat_alt) (simp_all add: lo_def)

lemma at_lower_node:
  assumes "hi (mem t) b < 2 ^ 32" and "hi (mem t) b + 1 < unat v"
  shows "\<not> are_consecutive v (range_value (mem t b))"
    and "\<not> v < range_value (mem t b)"
    and "\<not> are_consecutive (range_value (mem t b) + range_offset (mem t b)) v"
    and "v > range_value (mem t b)"
  using assms
  by (simp_all add: are_consecutive_nat hi_word word_less_nat_alt) (simp_all add: hi_def)

lemma descend_split_full:
  assumes "tree_at (mem t) par (Some a) T" and "bst (mem t) T"
    and "n \<in> set (nodes_of T)" and "lo (mem t) n < unat v" and "unat v \<le> hi (mem t) n"
    and "free_node_tail t = None"
  shows "insert_or_merge_loop v t a = Some (RB_FAIL_TREE_FULL, t, None)"
  using assms
proof (induction T arbitrary: a par)
  case Leaf
  then show ?case by simp
next
  case (Node l b r)
  from Node.prems(1) have ab: "a = b" by simp
  from Node.prems(1) have tl: "tree_at (mem t) (Some b) (left (mem t b)) l"
    and tr: "tree_at (mem t) (Some b) (right (mem t b)) r"
    by auto
  from Node.prems(2) have hb: "hi (mem t) b < 2 ^ 32" and bl: "bst (mem t) l" and br: "bst (mem t) r"
    and ll: "\<forall>x \<in> set (nodes_of l). hi (mem t) x + 1 < lo (mem t) b"
    and rr: "\<forall>x \<in> set (nodes_of r). hi (mem t) b + 1 < lo (mem t) x"
    by auto
  consider (here) "b = n" | (inl) "b \<noteq> n" "n \<in> set (nodes_of l)" | (inr) "b \<noteq> n" "n \<in> set (nodes_of r)"
    using Node.prems(3) by auto
  then show ?case
  proof cases
    case here
    note tests = at_split_node [OF hb Node.prems(4) [folded here] Node.prems(5) [folded here]]
    show ?thesis
    proof (cases "right (mem t b)")
      case None
      show ?thesis
        unfolding ab
        by (subst insert_or_merge_loop.simps)
           (simp add: insert_or_merge_body_def tests None create_rb_node_full [OF Node.prems(6)])
    next
      case (Some a')
      have step: "insert_or_merge_loop v t b = insert_or_merge_loop v t a'"
        by (subst insert_or_merge_loop.simps) (simp add: insert_or_merge_body_def tests Some)
      have tr': "tree_at (mem t) (Some b) (Some a') r" using tr Some by simp
      have "\<forall>x \<in> set (nodes_of r). unat v + 1 < lo (mem t) x"
        using rr Node.prems(5) here by fastforce
      from descend_new_left_full [OF tr' this Node.prems(6)] step show ?thesis
        unfolding ab by simp
    qed
  next
    case inl
    from ll inl(2) Node.prems(5) have lt: "unat v + 1 < lo (mem t) b" by fastforce
    then have nc: "\<not> are_consecutive v (range_value (mem t b))"
      by (simp add: are_consecutive_nat lo_def)
    from lt have less: "v < range_value (mem t b)"
      by (simp add: word_less_nat_alt lo_def)
    from inl(2) tl obtain a' where Some: "left (mem t b) = Some a'"
      by (cases "left (mem t b)") auto
    have step: "insert_or_merge_loop v t b = insert_or_merge_loop v t a'"
      by (subst insert_or_merge_loop.simps) (simp add: insert_or_merge_body_def nc less Some)
    have tl': "tree_at (mem t) (Some b) (Some a') l" using tl Some by simp
    from Node.IH(1) [OF tl' bl inl(2) Node.prems(4,5,6)] step show ?thesis
      unfolding ab by simp
  next
    case inr
    from rr inr(2) Node.prems(4) have gt: "hi (mem t) b + 1 < unat v" by fastforce
    note tests = at_lower_node [OF hb gt]
    from inr(2) tr obtain a' where Some: "right (mem t b) = Some a'"
      by (cases "right (mem t b)") auto
    have step: "insert_or_merge_loop v t b = insert_or_merge_loop v t a'"
      by (subst insert_or_merge_loop.simps) (simp add: insert_or_merge_body_def tests Some)
    have tr': "tree_at (mem t) (Some b) (Some a') r" using tr Some by simp
    from Node.IH(2) [OF tr' br inr(2) Node.prems(4,5,6)] step show ?thesis
      unfolding ab by simp
  qed
qed


lemma descend_split:
  assumes "tree_at (mem t) par (Some a) T" and "distinct (nodes_of T)" and "bst (mem t) T"
    and "n \<in> set (nodes_of T)" and "lo (mem t) n < unat v" and "unat v \<le> hi (mem t) n"
    and "free_node_tail t = Some u" and "u \<notin> set (nodes_of T)"
  shows "\<exists>t' y. insert_or_merge_loop v t a = Some (RB_SUCCESS, t', Some u) \<and>
           tree_at (mem t') par (Some a) (ins_after n u T) \<and> root t' = root t \<and>
           y \<in> set (nodes_of T) \<and> mem t' u = new_leaf v y \<and>
           (\<forall>x. x \<noteq> u \<and> x \<notin> set (nodes_of T) \<longrightarrow> mem t' x = mem t x) \<and>
           (\<forall>x. x \<noteq> u \<longrightarrow> range_value (mem t' x) = range_value (mem t x) \<and>
                             range_offset (mem t' x) = range_offset (mem t x))"
  using assms
proof (induction T arbitrary: a par)
  case Leaf
  then show ?case by simp
next
  case (Node l b r)
  from Node.prems(1) have ab: "a = b" by simp
  from Node.prems(1) have pa: "parent (mem t b) = par"
    and tl: "tree_at (mem t) (Some b) (left (mem t b)) l"
    and tr: "tree_at (mem t) (Some b) (right (mem t b)) r"
    by auto
  from Node.prems(3) have hb: "hi (mem t) b < 2 ^ 32" and bl: "bst (mem t) l" and br: "bst (mem t) r"
    and ll: "\<forall>x \<in> set (nodes_of l). hi (mem t) x + 1 < lo (mem t) b"
    and rr: "\<forall>x \<in> set (nodes_of r). hi (mem t) b + 1 < lo (mem t) x"
    by auto
  have ub: "u \<noteq> b" and ul: "u \<notin> set (nodes_of l)" and ur: "u \<notin> set (nodes_of r)"
    using Node.prems(8) by auto
  have bnl: "b \<notin> set (nodes_of l)" and bnr: "b \<notin> set (nodes_of r)"
    and lr: "set (nodes_of l) \<inter> set (nodes_of r) = {}"
    and dl: "distinct (nodes_of l)" and dr: "distinct (nodes_of r)"
    using Node.prems(2) by auto
  consider (here) "b = n" | (inl) "b \<noteq> n" "n \<in> set (nodes_of l)" | (inr) "b \<noteq> n" "n \<in> set (nodes_of r)"
    using Node.prems(4) by auto
  then show ?case
  proof cases
    case here
    note tests = at_split_node [OF hb Node.prems(5) [folded here] Node.prems(6) [folded here]]
    have ia: "ins_after n u (Node l b r) = Node l b (ins_leftmost u r)"
      using here by simp
    show ?thesis
    proof (cases "right (mem t b)")
      case None
      with tr have r: "r = Leaf" by simp
      obtain t1 where c: "create_rb_node v RED t = (Some u, t1)" and r1: "root t1 = root t"
        and m1: "mem t1 = (mem t)(u := \<lparr>range_value = v, range_offset = 0, color = RED,
                   traversal_state = False, parent = None, left = None, right = None\<rparr>)"
        using create_rb_node_some [OF Node.prems(7)] by blast
      define t' where "t' = set_right b (Some u) (set_parent u (Some b) t1)"
      have res: "insert_or_merge_loop v t b = Some (RB_SUCCESS, t', Some u)"
        by (subst insert_or_merge_loop.simps)
           (simp add: insert_or_merge_body_def tests None c t'_def)
      have mt': "mem t' = (mem t)(u := new_leaf v b, b := (mem t b)\<lparr>right := Some u\<rparr>)"
        using ub by (simp add: t'_def set_right_def set_parent_def m1 new_leaf_def)
      have rt: "root t' = root t"
        by (simp add: t'_def set_right_def set_parent_def r1)
      have "tree_at (mem t') (Some b) (left (mem t b)) l = tree_at (mem t) (Some b) (left (mem t b)) l"
        by (rule tree_at_frame) (use ul bnl in \<open>auto simp: mt'\<close>)
      with tl have tl': "tree_at (mem t') (Some b) (left (mem t b)) l" by simp
      have shape: "tree_at (mem t') par (Some b) (ins_after n u (Node l b r))"
        unfolding ia using tl' ub pa r by (simp add: mt' new_leaf_def)
      have mu: "mem t' u = new_leaf v b" using ub by (simp add: mt')
      have fr: "\<forall>x. x \<noteq> u \<and> x \<notin> set (nodes_of (Node l b r)) \<longrightarrow> mem t' x = mem t x"
        by (simp add: mt')
      have pay: "\<forall>x. x \<noteq> u \<longrightarrow> range_value (mem t' x) = range_value (mem t x) \<and>
                               range_offset (mem t' x) = range_offset (mem t x)"
        by (simp add: mt')
      have "b \<in> set (nodes_of (Node l b r))" by simp
      with res shape rt mu fr pay show ?thesis
        unfolding ab by blast
    next
      case (Some a')
      have step: "insert_or_merge_loop v t b = insert_or_merge_loop v t a'"
        by (subst insert_or_merge_loop.simps) (simp add: insert_or_merge_body_def tests Some)
      have tr': "tree_at (mem t) (Some b) (Some a') r" using tr Some by simp
      have far: "\<forall>x \<in> set (nodes_of r). unat v + 1 < lo (mem t) x"
        using rr Node.prems(6) here by fastforce
      from descend_new_left [OF tr' dr far Node.prems(7) ur]
      obtain t' y where res: "insert_or_merge_loop v t a' = Some (RB_SUCCESS, t', Some u)"
        and sh: "tree_at (mem t') (Some b) (Some a') (ins_leftmost u r)" and rt: "root t' = root t"
        and y: "y \<in> set (nodes_of r)" and mu: "mem t' u = new_leaf v y"
        and fr: "\<forall>x. x \<noteq> u \<and> x \<notin> set (nodes_of r) \<longrightarrow> mem t' x = mem t x"
        and pay: "\<forall>x. x \<noteq> u \<longrightarrow> range_value (mem t' x) = range_value (mem t x) \<and>
                               range_offset (mem t' x) = range_offset (mem t x)"
        by blast
      have mb: "mem t' b = mem t b" using fr ub bnr by simp
      have "tree_at (mem t') (Some b) (left (mem t b)) l = tree_at (mem t) (Some b) (left (mem t b)) l"
        by (rule tree_at_frame) (use fr ul lr in auto)
      with tl have tl'': "tree_at (mem t') (Some b) (left (mem t b)) l" by simp
      have shape: "tree_at (mem t') par (Some b) (ins_after n u (Node l b r))"
        unfolding ia using sh tl'' mb pa Some by simp
      have y': "y \<in> set (nodes_of (Node l b r))" using y by simp
      have fr': "\<forall>x. x \<noteq> u \<and> x \<notin> set (nodes_of (Node l b r)) \<longrightarrow> mem t' x = mem t x"
        using fr by simp
      from step res have res': "insert_or_merge_loop v t b = Some (RB_SUCCESS, t', Some u)" by simp
      from res' shape rt y' mu fr' pay show ?thesis
        unfolding ab by blast
    qed
  next
    case inl
    have ia: "ins_after n u (Node l b r) = Node (ins_after n u l) b r"
      using inl by simp
    from ll inl(2) Node.prems(6) have lt: "unat v + 1 < lo (mem t) b" by fastforce
    then have nc: "\<not> are_consecutive v (range_value (mem t b))"
      by (simp add: are_consecutive_nat lo_def)
    from lt have less: "v < range_value (mem t b)"
      by (simp add: word_less_nat_alt lo_def)
    from inl(2) tl obtain a' where Some: "left (mem t b) = Some a'"
      by (cases "left (mem t b)") auto
    have step: "insert_or_merge_loop v t b = insert_or_merge_loop v t a'"
      by (subst insert_or_merge_loop.simps) (simp add: insert_or_merge_body_def nc less Some)
    have tl': "tree_at (mem t) (Some b) (Some a') l" using tl Some by simp
    from Node.IH(1) [OF tl' dl bl inl(2) Node.prems(5,6,7) ul]
    obtain t' y where res: "insert_or_merge_loop v t a' = Some (RB_SUCCESS, t', Some u)"
      and sh: "tree_at (mem t') (Some b) (Some a') (ins_after n u l)" and rt: "root t' = root t"
      and y: "y \<in> set (nodes_of l)" and mu: "mem t' u = new_leaf v y"
      and fr: "\<forall>x. x \<noteq> u \<and> x \<notin> set (nodes_of l) \<longrightarrow> mem t' x = mem t x"
      and pay: "\<forall>x. x \<noteq> u \<longrightarrow> range_value (mem t' x) = range_value (mem t x) \<and>
                             range_offset (mem t' x) = range_offset (mem t x)"
      by blast
    have mb: "mem t' b = mem t b" using fr ub bnl by simp
    have "tree_at (mem t') (Some b) (right (mem t b)) r = tree_at (mem t) (Some b) (right (mem t b)) r"
      by (rule tree_at_frame) (use fr ur lr in auto)
    with tr have tr'': "tree_at (mem t') (Some b) (right (mem t b)) r" by simp
    have shape: "tree_at (mem t') par (Some b) (ins_after n u (Node l b r))"
      unfolding ia using sh tr'' mb pa Some by simp
    have y': "y \<in> set (nodes_of (Node l b r))" using y by simp
    have fr': "\<forall>x. x \<noteq> u \<and> x \<notin> set (nodes_of (Node l b r)) \<longrightarrow> mem t' x = mem t x"
      using fr by simp
    from step res have res': "insert_or_merge_loop v t b = Some (RB_SUCCESS, t', Some u)" by simp
    from res' shape rt y' mu fr' pay show ?thesis
      unfolding ab by blast
  next
    case inr
    have nl: "n \<notin> set (nodes_of l)" using inr(2) lr by auto
    have ia: "ins_after n u (Node l b r) = Node l b (ins_after n u r)"
      using inr nl by simp
    from rr inr(2) Node.prems(5) have gt: "hi (mem t) b + 1 < unat v" by fastforce
    note tests = at_lower_node [OF hb gt]
    from inr(2) tr obtain a' where Some: "right (mem t b) = Some a'"
      by (cases "right (mem t b)") auto
    have step: "insert_or_merge_loop v t b = insert_or_merge_loop v t a'"
      by (subst insert_or_merge_loop.simps) (simp add: insert_or_merge_body_def tests Some)
    have tr': "tree_at (mem t) (Some b) (Some a') r" using tr Some by simp
    from Node.IH(2) [OF tr' dr br inr(2) Node.prems(5,6,7) ur]
    obtain t' y where res: "insert_or_merge_loop v t a' = Some (RB_SUCCESS, t', Some u)"
      and sh: "tree_at (mem t') (Some b) (Some a') (ins_after n u r)" and rt: "root t' = root t"
      and y: "y \<in> set (nodes_of r)" and mu: "mem t' u = new_leaf v y"
      and fr: "\<forall>x. x \<noteq> u \<and> x \<notin> set (nodes_of r) \<longrightarrow> mem t' x = mem t x"
      and pay: "\<forall>x. x \<noteq> u \<longrightarrow> range_value (mem t' x) = range_value (mem t x) \<and>
                             range_offset (mem t' x) = range_offset (mem t x)"
      by blast
    have mb: "mem t' b = mem t b" using fr ub bnr by simp
    have "tree_at (mem t') (Some b) (left (mem t b)) l = tree_at (mem t) (Some b) (left (mem t b)) l"
      by (rule tree_at_frame) (use fr ul lr in auto)
    with tl have tl'': "tree_at (mem t') (Some b) (left (mem t b)) l" by simp
    have shape: "tree_at (mem t') par (Some b) (ins_after n u (Node l b r))"
      unfolding ia using sh tl'' mb pa Some by simp
    have y': "y \<in> set (nodes_of (Node l b r))" using y by simp
    have fr': "\<forall>x. x \<noteq> u \<and> x \<notin> set (nodes_of (Node l b r)) \<longrightarrow> mem t' x = mem t x"
      using fr by simp
    from step res have res': "insert_or_merge_loop v t b = Some (RB_SUCCESS, t', Some u)" by simp
    from res' shape rt y' mu fr' pay show ?thesis
      unfolding ab by blast
  qed
qed


lemma bst_hi: "bst m T \<Longrightarrow> x \<in> set (nodes_of T) \<Longrightarrow> hi m x < 2 ^ 32"
  by (induction T) auto

text \<open>
  The split on a well-formed tree. Let \<open>rb_tree_delete v\<close> find the node \<open>n\<close> with \<open>v\<close>
  strictly inside its range, in a tree whose nodes form the tree \<open>T\<close> of distinct
  addresses, ordered as invariant I4 says, and where the tail of the free-list is not a
  node of the tree. With a free node \<open>u\<close> the call returns \<open>RB_SUCCESS\<close>, \<open>n\<close> keeps its
  value with the offset \<open>v - n.value - 1\<close>, \<open>u\<close> holds the range from \<open>v + 1\<close> to the old
  upper bound and is linked in as the in-order successor of \<open>n\<close>, and no other range
  changes. With an empty free-list the call returns \<open>RB_FAIL_TREE_FULL\<close> and the tree is
  the one it was. The order of the ranges is needed: without it the new value can merge
  into a node that is already there.
\<close>

lemma delete_split:
  assumes shape: "tree_at (mem t) None (root t) T" and dist: "distinct (nodes_of T)"
    and ord: "bst (mem t) T"
    and found: "rb_tree_binary_search t v = Some (Some n)"
    and above: "range_value (mem t n) < v"
    and below: "v < range_value (mem t n) + range_offset (mem t n)"
    and free: "set_option (free_node_tail t) \<inter> set (nodes_of T) = {}"
  shows "case free_node_tail t of
           None \<Rightarrow> rb_tree_delete v (Some t) = Some (RB_FAIL_TREE_FULL, Some t)
         | Some u \<Rightarrow>
             (\<exists>t'. rb_tree_delete v (Some t) = Some (RB_SUCCESS, Some t') \<and>
                range_value (mem t' n) = range_value (mem t n) \<and>
                range_offset (mem t' n) = v - range_value (mem t n) - 1 \<and>
                range_value (mem t' u) = v + 1 \<and>
                range_value (mem t' u) + range_offset (mem t' u)
                  = range_value (mem t n) + range_offset (mem t n) \<and>
                tree_at (mem t') None (root t') (ins_after n u T) \<and>
                (\<forall>x. x \<noteq> n \<and> x \<noteq> u \<longrightarrow>
                   range_value (mem t' x) = range_value (mem t x) \<and>
                   range_offset (mem t' x) = range_offset (mem t x)))"
proof -
  have nT: "n \<in> set (nodes_of T)"
    using binary_search_in_tree [OF shape] found by (simp add: rb_tree_binary_search_def)
  then obtain r0 where r0: "root t = Some r0"
    using shape by (cases "root t") auto
  have hn: "hi (mem t) n < 2 ^ 32" using bst_hi [OF ord nT] .
  have lov: "lo (mem t) n < unat v"
    using above by (simp add: word_less_nat_alt lo_def)
  have vhi: "unat v < hi (mem t) n"
    using below by (simp add: word_less_nat_alt hi_word [OF hn])
  have v1: "unat (v + 1) = unat v + 1"
    using vhi hn by (simp add: unat_word_ariths)
  have lov1: "lo (mem t) n < unat (v + 1)" using lov v1 by simp
  have v1hi: "unat (v + 1) \<le> hi (mem t) n" using vhi v1 by simp
  have off: "range_offset (mem t n) \<noteq> 0"
    using lov vhi by (auto simp: lo_def hi_def)
  have ne1: "v \<noteq> range_value (mem t n)" using above by auto
  have ne2: "v \<noteq> range_value (mem t n) + range_offset (mem t n)" using below by auto
  have shape': "tree_at (mem t) None (Some r0) T" using shape r0 by simp
  show ?thesis
  proof (cases "free_node_tail t")
    case None
    have "insert_or_merge_loop (v + 1) t r0 = Some (RB_FAIL_TREE_FULL, t, None)"
      using descend_split_full [OF shape' ord nT lov1 v1hi None] .
    then show ?thesis
      using None found off ne1 ne2 r0
      by (simp add: rb_tree_delete_def try_binary_insert_or_merge_def)
  next
    case (Some u)
    have uT: "u \<notin> set (nodes_of T)" using free Some by auto
    have un: "u \<noteq> n" using uT nT by auto
    from descend_split [OF shape' dist ord nT lov1 v1hi Some uT]
    obtain t1 y where res: "insert_or_merge_loop (v + 1) t r0 = Some (RB_SUCCESS, t1, Some u)"
      and sh: "tree_at (mem t1) None (Some r0) (ins_after n u T)" and rt: "root t1 = root t"
      and mu: "mem t1 u = new_leaf (v + 1) y"
      and pay: "\<forall>x. x \<noteq> u \<longrightarrow> range_value (mem t1 x) = range_value (mem t x) \<and>
                             range_offset (mem t1 x) = range_offset (mem t x)"
      by blast
    define t2 where "t2 = set_offset u (range_value (mem t1 n) + range_offset (mem t1 n)
                                        - range_value (mem t1 u)) t1"
    define t3 where "t3 = set_offset n (v - range_value (mem t2 n) - 1) t2"
    have del: "rb_tree_delete v (Some t) = Some (RB_SUCCESS, Some t3)"
      using found off ne1 ne2 r0 res
      by (simp add: rb_tree_delete_def try_binary_insert_or_merge_def t2_def t3_def Let_def)
    have pn: "range_value (mem t1 n) = range_value (mem t n)"
      "range_offset (mem t1 n) = range_offset (mem t n)"
      using pay un by auto
    have m3: "mem t3 = (mem t1)(u := (mem t1 u)\<lparr>range_offset :=
                  range_value (mem t n) + range_offset (mem t n) - (v + 1)\<rparr>,
                n := (mem t1 n)\<lparr>range_offset := v - range_value (mem t n) - 1\<rparr>)"
      using un by (simp add: t3_def t2_def set_offset_def pn mu new_leaf_def)
    have r3: "root t3 = Some r0"
      by (simp add: t3_def t2_def set_offset_def rt r0)
    have "tree_at (mem t3) None (Some r0) (ins_after n u T)
            = tree_at (mem t1) None (Some r0) (ins_after n u T)"
      by (rule tree_at_frame) (simp add: m3)
    with sh have sh3: "tree_at (mem t3) None (root t3) (ins_after n u T)"
      by (simp add: r3)
    have "range_value (mem t3 n) = range_value (mem t n) \<and>
          range_offset (mem t3 n) = v - range_value (mem t n) - 1 \<and>
          range_value (mem t3 u) = v + 1 \<and>
          range_value (mem t3 u) + range_offset (mem t3 u)
            = range_value (mem t n) + range_offset (mem t n) \<and>
          (\<forall>x. x \<noteq> n \<and> x \<noteq> u \<longrightarrow>
             range_value (mem t3 x) = range_value (mem t x) \<and>
             range_offset (mem t3 x) = range_offset (mem t x))"
      using un pay by (simp add: m3 pn mu new_leaf_def)
    with del sh3 show ?thesis
      unfolding Some by auto
  qed
qed

lemma delete_split_example:
  "tree_at (mem split_tree) None (root split_tree) (Node Leaf 0 Leaf) \<and>
   bst (mem split_tree) (Node Leaf 0 Leaf) \<and>
   rb_tree_binary_search split_tree 6 = Some (Some 0) \<and>
   range_value (mem split_tree 0) < 6 \<and>
   6 < range_value (mem split_tree 0) + range_offset (mem split_tree 0) \<and>
   free_node_tail split_tree = Some 1 \<and>
   (\<exists>t'. rb_tree_delete 6 (Some split_tree) = Some (RB_SUCCESS, Some t') \<and>
      range_value (mem t' 0) = 5 \<and> range_offset (mem t' 0) = 0 \<and>
      range_value (mem t' 1) = 7 \<and>
      range_value (mem t' 1) + range_offset (mem t' 1) = 7 \<and>
      tree_at (mem t') None (root t') (Node Leaf 0 (Node Leaf 1 Leaf))) \<and>
   rb_tree_binary_search full_split_tree 6 = Some (Some 0) \<and>
   free_node_tail full_split_tree = None \<and>
   rb_tree_delete 6 (Some full_split_tree) = Some (RB_FAIL_TREE_FULL, Some full_split_tree)"
proof -
  have s: "tree_at (mem split_tree) None (root split_tree) (Node Leaf 0 Leaf)"
    "distinct (nodes_of (Node Leaf 0 Leaf))"
    "bst (mem split_tree) (Node Leaf 0 Leaf)"
    "rb_tree_binary_search split_tree 6 = Some (Some 0)"
    "range_value (mem split_tree 0) < 6"
    "6 < range_value (mem split_tree 0) + range_offset (mem split_tree 0)"
    "set_option (free_node_tail split_tree) \<inter> set (nodes_of (Node Leaf 0 Leaf)) = {}"
    by (simp_all add: split_tree_def hi_def lo_def rb_tree_binary_search_def binary_search_Some)
  have f: "tree_at (mem full_split_tree) None (root full_split_tree) (Node Leaf 0 Leaf)"
    "distinct (nodes_of (Node Leaf 0 Leaf))"
    "bst (mem full_split_tree) (Node Leaf 0 Leaf)"
    "rb_tree_binary_search full_split_tree 6 = Some (Some 0)"
    "range_value (mem full_split_tree 0) < 6"
    "6 < range_value (mem full_split_tree 0) + range_offset (mem full_split_tree 0)"
    "set_option (free_node_tail full_split_tree) \<inter> set (nodes_of (Node Leaf 0 Leaf)) = {}"
    by (simp_all add: full_split_tree_def hi_def lo_def rb_tree_binary_search_def binary_search_Some)
  have t1: "free_node_tail split_tree = Some 1" by (simp add: split_tree_def)
  have t2: "free_node_tail full_split_tree = None" by (simp add: full_split_tree_def)
  have v: "range_value (mem split_tree 0) = 5" "range_offset (mem split_tree 0) = 2"
    by (simp_all add: split_tree_def)
  show ?thesis
    using delete_split [OF s] delete_split [OF f] s f
    by (auto simp: t1 t2 v)
qed

section \<open>Draining a well-formed tree\<close>

text \<open>
  On a tree that is a red-black tree of distinct nodes, both ways of draining return the
  ranges of the nodes in order, once each, and leave the tree empty. The proof follows
  the code: the iterator always stands at the leftmost node; \<open>delete_rb_node\<close> removes it,
  rebalancing along the leftmost path, and \<open>delete_rb_node_without_rebalancing\<close> puts its
  right subtree in its place.
\<close>

subsection \<open>Trees with a hole in memory\<close>

lemma tree_at_ptr: "tree_at m par p T \<Longrightarrow> p = ptr T"
  by (cases T; cases p) auto

lemma nodes_plug: "nodes_of (plug fs S) = ctx_left fs @ nodes_of S @ ctx_right fs"
  by (induction fs S rule: plug.induct) auto

lemma tree_at_plug:
  "tree_at m None rt (plug fs S) \<longleftrightarrow> ctx_at m rt fs (ptr S) \<and> tree_at m (hole_par fs) (ptr S) S"
proof (induction fs S rule: plug.induct)
  case (1 S)
  show ?case using tree_at_ptr [of m None rt S] by auto
next
  case (2 p R fs S)
  show ?case
    unfolding plug.simps 2 using tree_at_ptr [of m "Some p" "left (m p)" S]
    by (auto simp: tree_at_Node)
next
  case (3 L p fs S)
  show ?case
    unfolding plug.simps 3 using tree_at_ptr [of m "Some p" "right (m p)" S]
    by (auto simp: tree_at_Node)
qed

lemma tree_at_links:
  "\<forall>a \<in> set (nodes_of T). same_links m m' a \<Longrightarrow> tree_at m' par p T = tree_at m par p T"
  by (rule tree_at_frame) (simp add: same_links_def)

text \<open>A subtree whose top node gets a new parent.\<close>

lemma tree_at_reparent:
  assumes "tree_at m par p T" and "distinct (nodes_of T)"
    and "\<forall>a \<in> set (nodes_of T). left (m' a) = left (m a) \<and> right (m' a) = right (m a)"
    and "\<forall>a \<in> set (nodes_of T). Some a \<noteq> p \<longrightarrow> parent (m' a) = parent (m a)"
    and "\<forall>a. p = Some a \<longrightarrow> parent (m' a) = par'"
  shows "tree_at m' par' p T"
proof (cases T)
  case Leaf
  with assms(1) show ?thesis by simp
next
  case (Node l a r)
  with assms(1) have p: "p = Some a" and tl: "tree_at m (Some a) (left (m a)) l"
    and tr: "tree_at m (Some a) (right (m a)) r"
    by (auto simp: tree_at_Node)
  have al: "a \<notin> set (nodes_of l)" "a \<notin> set (nodes_of r)" using assms(2) Node by auto
  have "tree_at m' (Some a) (left (m a)) l = tree_at m (Some a) (left (m a)) l"
    by (rule tree_at_links) (use assms(3,4) Node p al in \<open>auto simp: same_links_def\<close>)
  moreover have "tree_at m' (Some a) (right (m a)) r = tree_at m (Some a) (right (m a)) r"
    by (rule tree_at_links) (use assms(3,4) Node p al in \<open>auto simp: same_links_def\<close>)
  ultimately show ?thesis
    using tl tr assms(3,5) p Node by (simp add: tree_at_Node)
qed

lemma set_ctx_nodes: "set (ctx_nodes fs) = set (ctx_left fs) \<union> set (ctx_right fs)"
  by (induction fs rule: ctx_nodes.induct) auto

lemma distinct_plug:
  "distinct (nodes_of (plug fs S)) \<longleftrightarrow>
     distinct (ctx_nodes fs) \<and> distinct (nodes_of S) \<and> set (ctx_nodes fs) \<inter> set (nodes_of S) = {}"
  by (induction fs S rule: plug.induct) auto

lemma ctx_at_links:
  "\<forall>a \<in> set (ctx_nodes fs). same_links m m' a \<Longrightarrow> ctx_at m' rt fs h = ctx_at m rt fs h"
proof (induction fs arbitrary: h)
  case Nil
  show ?case by simp
next
  case (Cons f fs)
  show ?case
  proof (cases f)
    case (Lf p R)
    have "tree_at m' (Some p) (right (m p)) R = tree_at m (Some p) (right (m p)) R"
      by (rule tree_at_links) (use Cons.prems Lf in auto)
    moreover have "same_links m m' p" using Cons.prems Lf by simp
    moreover have "ctx_at m' rt fs (Some p) = ctx_at m rt fs (Some p)"
      by (rule Cons.IH) (use Cons.prems Lf in auto)
    ultimately show ?thesis using Lf by (auto simp: same_links_def)
  next
    case (Rt L p)
    have "tree_at m' (Some p) (left (m p)) L = tree_at m (Some p) (left (m p)) L"
      by (rule tree_at_links) (use Cons.prems Rt in auto)
    moreover have "same_links m m' p" using Cons.prems Rt by simp
    moreover have "ctx_at m' rt fs (Some p) = ctx_at m rt fs (Some p)"
      by (rule Cons.IH) (use Cons.prems Rt in auto)
    ultimately show ?thesis using Rt by (auto simp: same_links_def)
  qed
qed

lemma ctx_at_redirect:
  assumes "ctx_at m rt fs h" and "distinct (ctx_nodes fs)"
    and "\<forall>a \<in> set (ctx_nodes fs). same_links (redirect fs h' m) m' a"
  shows "ctx_at m' (if fs = [] then h' else rt) fs h'"
proof (cases fs)
  case Nil
  then show ?thesis by simp
next
  case (Cons f fs')
  show ?thesis
  proof (cases f)
    case (Lf p R)
    define r where "r = redirect fs h' m"
    have r: "r = m(p := (m p)\<lparr>left := h'\<rparr>)" using Cons Lf by (simp add: r_def redirect_def)
    have pn: "p \<notin> set (nodes_of R)" "p \<notin> set (ctx_nodes fs')" using assms(2) Cons Lf by auto
    have "tree_at r (Some p) (right (m p)) R = tree_at m (Some p) (right (m p)) R"
      by (rule tree_at_links) (use pn in \<open>auto simp: r same_links_def\<close>)
    moreover have "ctx_at r rt fs' (Some p) = ctx_at m rt fs' (Some p)"
      by (rule ctx_at_links) (use pn in \<open>auto simp: r same_links_def\<close>)
    ultimately have "ctx_at r rt (Lf p R # fs') h'"
      using assms(1) Cons Lf by (simp add: r)
    moreover have "ctx_at m' rt fs h' = ctx_at r rt fs h'"
      by (rule ctx_at_links) (use assms(3) in \<open>simp add: r_def\<close>)
    ultimately show ?thesis using Cons Lf by simp
  next
    case (Rt L p)
    define r where "r = redirect fs h' m"
    have r: "r = m(p := (m p)\<lparr>right := h'\<rparr>)" using Cons Rt by (simp add: r_def redirect_def)
    have pn: "p \<notin> set (nodes_of L)" "p \<notin> set (ctx_nodes fs')" using assms(2) Cons Rt by auto
    have "tree_at r (Some p) (left (m p)) L = tree_at m (Some p) (left (m p)) L"
      by (rule tree_at_links) (use pn in \<open>auto simp: r same_links_def\<close>)
    moreover have "ctx_at r rt fs' (Some p) = ctx_at m rt fs' (Some p)"
      by (rule ctx_at_links) (use pn in \<open>auto simp: r same_links_def\<close>)
    ultimately have "ctx_at r rt (Rt L p # fs') h'"
      using assms(1) Cons Rt by (simp add: r)
    moreover have "ctx_at m' rt fs h' = ctx_at r rt fs h'"
      by (rule ctx_at_links) (use assms(3) in \<open>simp add: r_def\<close>)
    ultimately show ?thesis using Cons Rt by simp
  qed
qed

subsection \<open>Rotations, node by node\<close>

lemma same_data_refl [simp]: "same_data t t"
  by (simp add: same_data_def)

lemma same_data_trans: "same_data t t' \<Longrightarrow> same_data t' t'' \<Longrightarrow> same_data t t''"
  by (simp add: same_data_def)

lemma same_data_set_left [simp]: "same_data t (set_left n p t)"
  by (simp add: same_data_def set_left_def)

lemma same_data_set_right [simp]: "same_data t (set_right n p t)"
  by (simp add: same_data_def set_right_def)

lemma same_data_set_parent [simp]: "same_data t (set_parent n p t)"
  by (simp add: same_data_def set_parent_def)

lemma same_data_root [simp]: "same_data t (t\<lparr>root := r\<rparr>)"
  by (simp add: same_data_def)

lemma mem_set_left: "mem (set_left n p t) = (mem t)(n := (mem t n)\<lparr>left := p\<rparr>)"
  by (simp add: set_left_def)

lemma mem_set_right: "mem (set_right n p t) = (mem t)(n := (mem t n)\<lparr>right := p\<rparr>)"
  by (simp add: set_right_def)

lemma mem_set_parent: "mem (set_parent n p t) = (mem t)(n := (mem t n)\<lparr>parent := p\<rparr>)"
  by (simp add: set_parent_def)

lemma root_set [simp]:
  "root (set_left n p t) = root t" "root (set_right n p t) = root t" "root (set_parent n p t) = root t"
  by (simp_all add: set_left_def set_right_def set_parent_def)

lemma swap_parents_mem:
  assumes "n1 \<noteq> n2" and "parent (mem t n1) \<noteq> Some n1" and "parent (mem t n1) \<noteq> Some n2"
  shows "root (swap_parents n1 n2 t) = (if parent (mem t n1) = None then Some n2 else root t)"
    and "mem (swap_parents n1 n2 t) a =
           (if a = n1 then (mem t n1)\<lparr>parent := Some n2\<rparr>
            else if a = n2 then (mem t n2)\<lparr>parent := parent (mem t n1)\<rparr>
            else if Some a = parent (mem t n1)
                 then (if left (mem t a) = Some n1 then (mem t a)\<lparr>left := Some n2\<rparr>
                       else (mem t a)\<lparr>right := Some n2\<rparr>)
            else mem t a)"
    and "same_data t (swap_parents n1 n2 t)"
proof -
  define u1 where "u1 = set_parent n2 (parent (mem t n1)) t"
  have p1: "parent (mem u1 n1) = parent (mem t n1)"
    using assms(1) by (simp add: u1_def mem_set_parent)
  show "root (swap_parents n1 n2 t) = (if parent (mem t n1) = None then Some n2 else root t)"
  proof (cases "parent (mem t n1)")
    case None
    then show ?thesis
      using assms(1) by (simp add: swap_parents_def Let_def mem_set_parent)
  next
    case (Some g)
    then show ?thesis
      using assms(1) by (simp add: swap_parents_def Let_def mem_set_parent)
  qed
  show "same_data t (swap_parents n1 n2 t)"
    by (cases "parent (mem t n1)")
       (auto simp: swap_parents_def Let_def same_data_def set_parent_def set_left_def set_right_def)
  show "mem (swap_parents n1 n2 t) a =
           (if a = n1 then (mem t n1)\<lparr>parent := Some n2\<rparr>
            else if a = n2 then (mem t n2)\<lparr>parent := parent (mem t n1)\<rparr>
            else if Some a = parent (mem t n1)
                 then (if left (mem t a) = Some n1 then (mem t a)\<lparr>left := Some n2\<rparr>
                       else (mem t a)\<lparr>right := Some n2\<rparr>)
            else mem t a)"
  proof (cases "parent (mem t n1)")
    case None
    then show ?thesis
      using assms(1)
      by (simp add: swap_parents_def Let_def mem_set_parent)
  next
    case (Some g)
    have g: "g \<noteq> n1" "g \<noteq> n2" using assms(2,3) Some by auto
    have ilc: "is_left_child (set_parent n2 (Some g) t) n1 = (left (mem t g) = Some n1)"
      using g assms(1) by (simp add: is_left_child_def Some mem_set_parent)
    show ?thesis
      using assms(1) g Some
      by (simp add: swap_parents_def Let_def ilc mem_set_parent mem_set_left mem_set_right)
  qed
qed

lemma rotate_left_mem:
  assumes rs: "right (mem t p) = Some s" and ps: "p \<noteq> s"
    and b1: "left (mem t s) \<noteq> Some p" and b2: "left (mem t s) \<noteq> Some s"
    and g1: "parent (mem t p) \<noteq> Some p" and g2: "parent (mem t p) \<noteq> Some s"
    and g3: "parent (mem t p) = None \<or> parent (mem t p) \<noteq> left (mem t s)"
  shows "\<exists>t'. rotate_left t p = Some t' \<and>
           root t' = (if parent (mem t p) = None then Some s else root t) \<and>
           mem t' = rotated_left (mem t) p s \<and> same_data t t'"
proof -
  define t1 where "t1 = set_right p (left (mem t s)) t"
  define t2 where "t2 = set_left s (Some p) t1"
  define t3 where "t3 = (case right (mem t2 p) of None \<Rightarrow> t2 | Some r \<Rightarrow> set_parent r (Some p) t2)"
  have rot: "rotate_left t p = Some (swap_parents p s t3)"
    unfolding t3_def t2_def t1_def by (simp add: rotate_left_def rs Let_def)
  have r2: "right (mem t2 p) = left (mem t s)"
    using ps by (simp add: t2_def t1_def mem_set_left mem_set_right)
  have m3: "mem t3 a =
           (if a = p then (mem t p)\<lparr>right := left (mem t s)\<rparr>
            else if a = s then (mem t s)\<lparr>left := Some p\<rparr>
            else if Some a = left (mem t s) then (mem t a)\<lparr>parent := Some p\<rparr>
            else mem t a)" for a
    using ps b1 b2
    by (cases "left (mem t s)")
       (auto simp: t3_def r2 t2_def t1_def mem_set_left mem_set_right mem_set_parent)
  have root3: "root t3 = root t"
    by (cases "right (mem t2 p)") (simp_all add: t3_def t2_def t1_def)
  have d3: "same_data t t3"
    by (cases "right (mem t2 p)")
       (auto simp: t3_def t2_def t1_def same_data_def set_left_def set_right_def set_parent_def)
  have p3: "parent (mem t3 p) = parent (mem t p)"
    by (simp add: m3)
  note sw = swap_parents_mem [of p s t3, OF ps, unfolded p3, OF g1 g2]
  have "mem (swap_parents p s t3) a = rotated_left (mem t) p s a" for a
    using ps b1 b2 g1 g2 g3
    by (cases "parent (mem t p)") (auto simp: sw(2) m3 rotated_left_def)
  then have "mem (swap_parents p s t3) = rotated_left (mem t) p s"
    by (simp add: fun_eq_iff)
  moreover have "same_data t (swap_parents p s t3)"
    using same_data_trans [OF d3 sw(3)] .
  ultimately show ?thesis
    using rot sw(1) root3 by simp
qed

lemma rotate_right_mem:
  assumes rs: "left (mem t p) = Some s" and ps: "p \<noteq> s"
    and b1: "right (mem t s) \<noteq> Some p" and b2: "right (mem t s) \<noteq> Some s"
    and g1: "parent (mem t p) \<noteq> Some p" and g2: "parent (mem t p) \<noteq> Some s"
    and g3: "parent (mem t p) = None \<or> parent (mem t p) \<noteq> right (mem t s)"
  shows "\<exists>t'. rotate_right t p = Some t' \<and>
           root t' = (if parent (mem t p) = None then Some s else root t) \<and>
           mem t' = rotated_right (mem t) p s \<and> same_data t t'"
proof -
  define t1 where "t1 = set_left p (right (mem t s)) t"
  define t2 where "t2 = set_right s (Some p) t1"
  define t3 where "t3 = (case left (mem t2 p) of None \<Rightarrow> t2 | Some r \<Rightarrow> set_parent r (Some p) t2)"
  have rot: "rotate_right t p = Some (swap_parents p s t3)"
    unfolding t3_def t2_def t1_def by (simp add: rotate_right_def rs Let_def)
  have r2: "left (mem t2 p) = right (mem t s)"
    using ps by (simp add: t2_def t1_def mem_set_left mem_set_right)
  have m3: "mem t3 a =
           (if a = p then (mem t p)\<lparr>left := right (mem t s)\<rparr>
            else if a = s then (mem t s)\<lparr>right := Some p\<rparr>
            else if Some a = right (mem t s) then (mem t a)\<lparr>parent := Some p\<rparr>
            else mem t a)" for a
    using ps b1 b2
    by (cases "right (mem t s)")
       (auto simp: t3_def r2 t2_def t1_def mem_set_left mem_set_right mem_set_parent)
  have root3: "root t3 = root t"
    by (cases "left (mem t2 p)") (simp_all add: t3_def t2_def t1_def)
  have d3: "same_data t t3"
    by (cases "left (mem t2 p)")
       (auto simp: t3_def t2_def t1_def same_data_def set_left_def set_right_def set_parent_def)
  have p3: "parent (mem t3 p) = parent (mem t p)"
    by (simp add: m3)
  note sw = swap_parents_mem [of p s t3, OF ps, unfolded p3, OF g1 g2]
  have "mem (swap_parents p s t3) a = rotated_right (mem t) p s a" for a
    using ps b1 b2 g1 g2 g3
    by (cases "parent (mem t p)") (auto simp: sw(2) m3 rotated_right_def)
  then have "mem (swap_parents p s t3) = rotated_right (mem t) p s"
    by (simp add: fun_eq_iff)
  moreover have "same_data t (swap_parents p s t3)"
    using same_data_trans [OF d3 sw(3)] .
  ultimately show ?thesis
    using rot sw(1) root3 by simp
qed

subsection \<open>Rotations in a context\<close>

lemma ptr_in_nodes: "ptr T = Some a \<Longrightarrow> a \<in> set (nodes_of T)"
  by (cases T) auto

lemma hole_par_in_ctx: "hole_par fs = Some g \<Longrightarrow> g \<in> set (ctx_nodes fs)"
  by (cases fs rule: ctx_nodes.cases) auto

lemma hole_par_None: "hole_par fs = None \<longleftrightarrow> fs = []"
  by (cases fs) auto

lemma redirect_links:
  assumes cx: "ctx_at m rt fs (Some p)" and di: "distinct (ctx_nodes fs)"
    and pn: "p \<notin> set (ctx_nodes fs)"
    and other: "\<forall>a \<in> set (ctx_nodes fs). Some a \<noteq> hole_par fs \<longrightarrow> same_links m m' a"
    and par: "\<forall>g. hole_par fs = Some g \<longrightarrow>
                parent (m' g) = parent (m g) \<and>
                (if left (m g) = Some p then left (m' g) = h \<and> right (m' g) = right (m g)
                 else left (m' g) = left (m g) \<and> right (m' g) = h)"
  shows "\<forall>a \<in> set (ctx_nodes fs). same_links (redirect fs h m) m' a"
proof (cases fs)
  case Nil
  then show ?thesis by simp
next
  case (Cons f fs')
  show ?thesis
  proof (cases f)
    case (Lf g R)
    have lg: "left (m g) = Some p" using cx Cons Lf by simp
    have hp: "hole_par fs = Some g" using Cons Lf by simp
    show ?thesis
    proof
      fix a assume a: "a \<in> set (ctx_nodes fs)"
      show "same_links (redirect fs h m) m' a"
      proof (cases "a = g")
        case True
        then show ?thesis
          using par hp lg Cons Lf by (simp add: redirect_def same_links_def)
      next
        case False
        then have "same_links m m' a" using other a hp by auto
        then show ?thesis
          using False Cons Lf by (simp add: redirect_def same_links_def)
      qed
    qed
  next
    case (Rt L g)
    have rg: "right (m g) = Some p" and tl: "tree_at m (Some g) (left (m g)) L"
      using cx Cons Rt by simp_all
    have hp: "hole_par fs = Some g" using Cons Rt by simp
    have "left (m g) \<noteq> Some p"
    proof
      assume "left (m g) = Some p"
      with tl have "ptr L = Some p" using tree_at_ptr by fastforce
      then have "p \<in> set (nodes_of L)" by (rule ptr_in_nodes)
      then show False using pn Cons Rt by simp
    qed
    note lg = this
    show ?thesis
    proof
      fix a assume a: "a \<in> set (ctx_nodes fs)"
      show "same_links (redirect fs h m) m' a"
      proof (cases "a = g")
        case True
        then show ?thesis
          using par hp lg Cons Rt by (simp add: redirect_def same_links_def)
      next
        case False
        then have "same_links m m' a" using other a hp by auto
        then show ?thesis
          using False Cons Rt by (simp add: redirect_def same_links_def)
      qed
    qed
  qed
qed

lemma rotate_left_ctx:
  assumes sh: "tree_at (mem t) None (root t) (plug fs (Node A p (Node B s C)))"
    and di: "distinct (nodes_of (plug fs (Node A p (Node B s C))))"
  shows "\<exists>t'. rotate_left t p = Some t' \<and>
           tree_at (mem t') None (root t') (plug fs (Node (Node A p B) s C)) \<and> same_data t t'"
proof -
  define m where "m = mem t"
  from sh have cx: "ctx_at m (root t) fs (Some p)"
    and pp: "parent (m p) = hole_par fs"
    and tA: "tree_at m (Some p) (left (m p)) A"
    and rp: "right (m p) = Some s"
    and tB: "tree_at m (Some s) (left (m s)) B"
    and tC: "tree_at m (Some s) (right (m s)) C"
    by (auto simp: tree_at_plug tree_at_Node m_def)
  have lB: "left (m s) = ptr B" using tree_at_ptr [OF tB] .
  from di have dc: "distinct (ctx_nodes fs)"
    and dA: "distinct (nodes_of A)" and dB: "distinct (nodes_of B)" and dC: "distinct (nodes_of C)"
    and ps: "p \<noteq> s"
    and pc: "p \<notin> set (ctx_nodes fs)" and sc: "s \<notin> set (ctx_nodes fs)"
    and pA: "p \<notin> set (nodes_of A)" and pB: "p \<notin> set (nodes_of B)" and pC: "p \<notin> set (nodes_of C)"
    and sA: "s \<notin> set (nodes_of A)" and sB: "s \<notin> set (nodes_of B)" and sC: "s \<notin> set (nodes_of C)"
    and AB: "set (nodes_of A) \<inter> set (nodes_of B) = {}"
    and AC: "set (nodes_of A) \<inter> set (nodes_of C) = {}"
    and BC: "set (nodes_of B) \<inter> set (nodes_of C) = {}"
    and cA: "set (ctx_nodes fs) \<inter> set (nodes_of A) = {}"
    and cB: "set (ctx_nodes fs) \<inter> set (nodes_of B) = {}"
    and cC: "set (ctx_nodes fs) \<inter> set (nodes_of C) = {}"
    by (auto simp: distinct_plug)
  have b1: "left (m s) \<noteq> Some p" using lB pB ptr_in_nodes by fastforce
  have b2: "left (m s) \<noteq> Some s" using lB sB ptr_in_nodes by fastforce
  have g1: "parent (m p) \<noteq> Some p" using pp pc hole_par_in_ctx by fastforce
  have g2: "parent (m p) \<noteq> Some s" using pp sc hole_par_in_ctx by fastforce
  have g3: "parent (m p) = None \<or> parent (m p) \<noteq> left (m s)"
  proof (cases "parent (m p)")
    case None
    then show ?thesis by simp
  next
    case (Some g)
    then have "g \<in> set (ctx_nodes fs)" using pp hole_par_in_ctx by fastforce
    then have "g \<notin> set (nodes_of B)" using cB by auto
    then show ?thesis using Some lB ptr_in_nodes by fastforce
  qed
  from rotate_left_mem [of t p s, folded m_def, OF rp ps b1 b2 g1 g2 g3]
  obtain t' where rot: "rotate_left t p = Some t'"
    and rt: "root t' = (if parent (m p) = None then Some s else root t)"
    and mt: "mem t' = rotated_left m p s" and sd: "same_data t t'"
    by blast
  define m' where "m' = rotated_left m p s"
  have outside: "m' a = m a" if "a \<noteq> p" "a \<noteq> s" "Some a \<noteq> ptr B" "Some a \<noteq> hole_par fs" for a
    using that by (simp add: m'_def rotated_left_def lB pp)
  have notroot: "Some a \<noteq> ptr B" if "a \<notin> set (nodes_of B)" for a
    using that ptr_in_nodes by fastforce
  have notpar: "Some a \<noteq> hole_par fs" if "a \<notin> set (ctx_nodes fs)" for a
    using that hole_par_in_ctx by fastforce
  have "tree_at m' (Some p) (left (m p)) A = tree_at m (Some p) (left (m p)) A"
  proof (rule tree_at_links, rule ballI)
    fix a assume "a \<in> set (nodes_of A)"
    then have "a \<noteq> p" "a \<noteq> s" "a \<notin> set (nodes_of B)" "a \<notin> set (ctx_nodes fs)"
      using pA sA AB cA by auto
    then have "m' a = m a" using outside notroot notpar by simp
    then show "same_links m m' a" by (simp add: same_links_def)
  qed
  with tA have tA': "tree_at m' (Some p) (left (m p)) A" by simp
  have "tree_at m' (Some s) (right (m s)) C = tree_at m (Some s) (right (m s)) C"
  proof (rule tree_at_links, rule ballI)
    fix a assume "a \<in> set (nodes_of C)"
    then have "a \<noteq> p" "a \<noteq> s" "a \<notin> set (nodes_of B)" "a \<notin> set (ctx_nodes fs)"
      using pC sC BC cC by auto
    then have "m' a = m a" using outside notroot notpar by simp
    then show "same_links m m' a" by (simp add: same_links_def)
  qed
  with tC have tC': "tree_at m' (Some s) (right (m s)) C" by simp
  have inB: "m' a = (if Some a = ptr B then (m a)\<lparr>parent := Some p\<rparr> else m a)"
    if "a \<in> set (nodes_of B)" for a
  proof -
    from that have "a \<noteq> p" "a \<noteq> s" "a \<notin> set (ctx_nodes fs)" using pB sB cB by auto
    then show ?thesis using notpar [of a] by (simp add: m'_def rotated_left_def lB pp)
  qed
  have tB': "tree_at m' (Some p) (ptr B) B"
  proof (rule tree_at_reparent [OF tB [unfolded lB] dB])
    show "\<forall>a\<in>set (nodes_of B). left (m' a) = left (m a) \<and> right (m' a) = right (m a)"
      by (simp add: inB)
    show "\<forall>a\<in>set (nodes_of B). Some a \<noteq> ptr B \<longrightarrow> parent (m' a) = parent (m a)"
      by (simp add: inB)
    show "\<forall>a. ptr B = Some a \<longrightarrow> parent (m' a) = Some p"
    proof (intro allI impI)
      fix a assume a: "ptr B = Some a"
      then have "a \<in> set (nodes_of B)" by (rule ptr_in_nodes)
      from inB [OF this] a show "parent (m' a) = Some p" by simp
    qed
  qed
  have mp: "m' p = (m p)\<lparr>right := ptr B, parent := Some s\<rparr>"
    by (simp add: m'_def rotated_left_def lB)
  have ms: "m' s = (m s)\<lparr>left := Some p, parent := hole_par fs\<rparr>"
    using ps by (simp add: m'_def rotated_left_def pp)
  have sub: "tree_at m' (hole_par fs) (Some s) (Node (Node A p B) s C)"
    using tA' tB' tC' by (simp add: tree_at_Node mp ms)
  have links: "\<forall>a \<in> set (ctx_nodes fs). same_links (redirect fs (Some s) m) m' a"
  proof (rule redirect_links [OF cx dc pc])
    show "\<forall>a\<in>set (ctx_nodes fs). Some a \<noteq> hole_par fs \<longrightarrow> same_links m m' a"
    proof (intro ballI impI)
      fix a assume a: "a \<in> set (ctx_nodes fs)" "Some a \<noteq> hole_par fs"
      then have "a \<noteq> p" "a \<noteq> s" "a \<notin> set (nodes_of B)" using pc sc cB by auto
      then have "m' a = m a" using outside notroot a(2) by simp
      then show "same_links m m' a" by (simp add: same_links_def)
    qed
    show "\<forall>g. hole_par fs = Some g \<longrightarrow>
            parent (m' g) = parent (m g) \<and>
            (if left (m g) = Some p then left (m' g) = Some s \<and> right (m' g) = right (m g)
             else left (m' g) = left (m g) \<and> right (m' g) = Some s)"
    proof (intro allI impI)
      fix g assume g: "hole_par fs = Some g"
      then have gc: "g \<in> set (ctx_nodes fs)" by (rule hole_par_in_ctx)
      then have "g \<noteq> p" "g \<noteq> s" "g \<notin> set (nodes_of B)" using pc sc cB by auto
      then have "m' g = (if left (m g) = Some p then (m g)\<lparr>left := Some s\<rparr>
                         else (m g)\<lparr>right := Some s\<rparr>)"
        using notroot [of g] g by (simp add: m'_def rotated_left_def lB pp)
      then show "parent (m' g) = parent (m g) \<and>
            (if left (m g) = Some p then left (m' g) = Some s \<and> right (m' g) = right (m g)
             else left (m' g) = left (m g) \<and> right (m' g) = Some s)"
        by simp
    qed
  qed
  have cx': "ctx_at m' (if fs = [] then Some s else root t) fs (Some s)"
    by (rule ctx_at_redirect [OF cx dc links])
  have rt': "root t' = (if fs = [] then Some s else root t)"
    using rt pp by (simp add: hole_par_None)
  have "tree_at (mem t') None (root t') (plug fs (Node (Node A p B) s C))"
    using cx' sub by (simp add: tree_at_plug mt rt' m'_def [symmetric])
  with rot sd show ?thesis by blast
qed

lemma rotate_right_ctx:
  assumes sh: "tree_at (mem t) None (root t) (plug fs (Node (Node C s B) p A))"
    and di: "distinct (nodes_of (plug fs (Node (Node C s B) p A)))"
  shows "\<exists>t'. rotate_right t p = Some t' \<and>
           tree_at (mem t') None (root t') (plug fs (Node C s (Node B p A))) \<and> same_data t t'"
proof -
  define m where "m = mem t"
  from sh have cx: "ctx_at m (root t) fs (Some p)"
    and pp: "parent (m p) = hole_par fs"
    and tA: "tree_at m (Some p) (right (m p)) A"
    and rp: "left (m p) = Some s"
    and tB: "tree_at m (Some s) (right (m s)) B"
    and tC: "tree_at m (Some s) (left (m s)) C"
    by (auto simp: tree_at_plug tree_at_Node m_def)
  have lB: "right (m s) = ptr B" using tree_at_ptr [OF tB] .
  from di have dc: "distinct (ctx_nodes fs)"
    and dA: "distinct (nodes_of A)" and dB: "distinct (nodes_of B)" and dC: "distinct (nodes_of C)"
    and ps: "p \<noteq> s"
    and pc: "p \<notin> set (ctx_nodes fs)" and sc: "s \<notin> set (ctx_nodes fs)"
    and pA: "p \<notin> set (nodes_of A)" and pB: "p \<notin> set (nodes_of B)" and pC: "p \<notin> set (nodes_of C)"
    and sA: "s \<notin> set (nodes_of A)" and sB: "s \<notin> set (nodes_of B)" and sC: "s \<notin> set (nodes_of C)"
    and AB: "set (nodes_of A) \<inter> set (nodes_of B) = {}"
    and AC: "set (nodes_of A) \<inter> set (nodes_of C) = {}"
    and BC: "set (nodes_of B) \<inter> set (nodes_of C) = {}"
    and cA: "set (ctx_nodes fs) \<inter> set (nodes_of A) = {}"
    and cB: "set (ctx_nodes fs) \<inter> set (nodes_of B) = {}"
    and cC: "set (ctx_nodes fs) \<inter> set (nodes_of C) = {}"
    by (auto simp: distinct_plug)
  have b1: "right (m s) \<noteq> Some p" using lB pB ptr_in_nodes by fastforce
  have b2: "right (m s) \<noteq> Some s" using lB sB ptr_in_nodes by fastforce
  have g1: "parent (m p) \<noteq> Some p" using pp pc hole_par_in_ctx by fastforce
  have g2: "parent (m p) \<noteq> Some s" using pp sc hole_par_in_ctx by fastforce
  have g3: "parent (m p) = None \<or> parent (m p) \<noteq> right (m s)"
  proof (cases "parent (m p)")
    case None
    then show ?thesis by simp
  next
    case (Some g)
    then have "g \<in> set (ctx_nodes fs)" using pp hole_par_in_ctx by fastforce
    then have "g \<notin> set (nodes_of B)" using cB by auto
    then show ?thesis using Some lB ptr_in_nodes by fastforce
  qed
  from rotate_right_mem [of t p s, folded m_def, OF rp ps b1 b2 g1 g2 g3]
  obtain t' where rot: "rotate_right t p = Some t'"
    and rt: "root t' = (if parent (m p) = None then Some s else root t)"
    and mt: "mem t' = rotated_right m p s" and sd: "same_data t t'"
    by blast
  define m' where "m' = rotated_right m p s"
  have outside: "m' a = m a" if "a \<noteq> p" "a \<noteq> s" "Some a \<noteq> ptr B" "Some a \<noteq> hole_par fs" for a
    using that by (simp add: m'_def rotated_right_def lB pp)
  have notroot: "Some a \<noteq> ptr B" if "a \<notin> set (nodes_of B)" for a
    using that ptr_in_nodes by fastforce
  have notpar: "Some a \<noteq> hole_par fs" if "a \<notin> set (ctx_nodes fs)" for a
    using that hole_par_in_ctx by fastforce
  have "tree_at m' (Some p) (right (m p)) A = tree_at m (Some p) (right (m p)) A"
  proof (rule tree_at_links, rule ballI)
    fix a assume "a \<in> set (nodes_of A)"
    then have "a \<noteq> p" "a \<noteq> s" "a \<notin> set (nodes_of B)" "a \<notin> set (ctx_nodes fs)"
      using pA sA AB cA by auto
    then have "m' a = m a" using outside notroot notpar by simp
    then show "same_links m m' a" by (simp add: same_links_def)
  qed
  with tA have tA': "tree_at m' (Some p) (right (m p)) A" by simp
  have "tree_at m' (Some s) (left (m s)) C = tree_at m (Some s) (left (m s)) C"
  proof (rule tree_at_links, rule ballI)
    fix a assume "a \<in> set (nodes_of C)"
    then have "a \<noteq> p" "a \<noteq> s" "a \<notin> set (nodes_of B)" "a \<notin> set (ctx_nodes fs)"
      using pC sC BC cC by auto
    then have "m' a = m a" using outside notroot notpar by simp
    then show "same_links m m' a" by (simp add: same_links_def)
  qed
  with tC have tC': "tree_at m' (Some s) (left (m s)) C" by simp
  have inB: "m' a = (if Some a = ptr B then (m a)\<lparr>parent := Some p\<rparr> else m a)"
    if "a \<in> set (nodes_of B)" for a
  proof -
    from that have "a \<noteq> p" "a \<noteq> s" "a \<notin> set (ctx_nodes fs)" using pB sB cB by auto
    then show ?thesis using notpar [of a] by (simp add: m'_def rotated_right_def lB pp)
  qed
  have tB': "tree_at m' (Some p) (ptr B) B"
  proof (rule tree_at_reparent [OF tB [unfolded lB] dB])
    show "\<forall>a\<in>set (nodes_of B). left (m' a) = left (m a) \<and> right (m' a) = right (m a)"
      by (simp add: inB)
    show "\<forall>a\<in>set (nodes_of B). Some a \<noteq> ptr B \<longrightarrow> parent (m' a) = parent (m a)"
      by (simp add: inB)
    show "\<forall>a. ptr B = Some a \<longrightarrow> parent (m' a) = Some p"
    proof (intro allI impI)
      fix a assume a: "ptr B = Some a"
      then have "a \<in> set (nodes_of B)" by (rule ptr_in_nodes)
      from inB [OF this] a show "parent (m' a) = Some p" by simp
    qed
  qed
  have mp: "m' p = (m p)\<lparr>left := ptr B, parent := Some s\<rparr>"
    by (simp add: m'_def rotated_right_def lB)
  have ms: "m' s = (m s)\<lparr>right := Some p, parent := hole_par fs\<rparr>"
    using ps by (simp add: m'_def rotated_right_def pp)
  have sub: "tree_at m' (hole_par fs) (Some s) (Node C s (Node B p A))"
    using tA' tB' tC' by (simp add: tree_at_Node mp ms)
  have links: "\<forall>a \<in> set (ctx_nodes fs). same_links (redirect fs (Some s) m) m' a"
  proof (rule redirect_links [OF cx dc pc])
    show "\<forall>a\<in>set (ctx_nodes fs). Some a \<noteq> hole_par fs \<longrightarrow> same_links m m' a"
    proof (intro ballI impI)
      fix a assume a: "a \<in> set (ctx_nodes fs)" "Some a \<noteq> hole_par fs"
      then have "a \<noteq> p" "a \<noteq> s" "a \<notin> set (nodes_of B)" using pc sc cB by auto
      then have "m' a = m a" using outside notroot a(2) by simp
      then show "same_links m m' a" by (simp add: same_links_def)
    qed
    show "\<forall>g. hole_par fs = Some g \<longrightarrow>
            parent (m' g) = parent (m g) \<and>
            (if left (m g) = Some p then left (m' g) = Some s \<and> right (m' g) = right (m g)
             else left (m' g) = left (m g) \<and> right (m' g) = Some s)"
    proof (intro allI impI)
      fix g assume g: "hole_par fs = Some g"
      then have gc: "g \<in> set (ctx_nodes fs)" by (rule hole_par_in_ctx)
      then have "g \<noteq> p" "g \<noteq> s" "g \<notin> set (nodes_of B)" using pc sc cB by auto
      then have "m' g = (if left (m g) = Some p then (m g)\<lparr>left := Some s\<rparr>
                         else (m g)\<lparr>right := Some s\<rparr>)"
        using notroot [of g] g by (simp add: m'_def rotated_right_def lB pp)
      then show "parent (m' g) = parent (m g) \<and>
            (if left (m g) = Some p then left (m' g) = Some s \<and> right (m' g) = right (m g)
             else left (m' g) = left (m g) \<and> right (m' g) = Some s)"
        by simp
    qed
  qed
  have cx': "ctx_at m' (if fs = [] then Some s else root t) fs (Some s)"
    by (rule ctx_at_redirect [OF cx dc links])
  have rt': "root t' = (if fs = [] then Some s else root t)"
    using rt pp by (simp add: hole_par_None)
  have "tree_at (mem t') None (root t') (plug fs (Node C s (Node B p A)))"
    using cx' sub by (simp add: tree_at_plug mt rt' m'_def [symmetric])
  with rot sd show ?thesis by blast
qed

subsection \<open>The invariants of a plugged tree\<close>

lemma invh_plug: "invh c (plug fs Y) \<longleftrightarrow> invh c Y \<and> ctx_h c fs (bh c Y)"
  by (induction fs Y rule: plug.induct) auto

lemma invc_plug: "invc c (plug fs Y) \<longleftrightarrow> invc c Y \<and> ctx_c c fs (red_root c Y)"
  by (induction fs Y rule: plug.induct) auto

lemma red_root_plug: "red_root c (plug fs Y) = ctx_root_red c fs (red_root c Y)"
  by (induction fs Y rule: plug.induct) auto

lemma rbt_plug:
  "rbt c (plug fs Y) \<longleftrightarrow>
     invh c Y \<and> ctx_h c fs (bh c Y) \<and> invc c Y \<and> ctx_c c fs (red_root c Y) \<and>
     \<not> ctx_root_red c fs (red_root c Y)"
  by (auto simp: rbt_def invh_plug invc_plug red_root_plug)

text \<open>The invariants only read the colours of the nodes they range over.\<close>

lemma bh_cong: "\<forall>a \<in> set (nodes_of T). c' a = c a \<Longrightarrow> bh c' T = bh c T"
  by (induction T) auto

lemma red_root_cong: "\<forall>a \<in> set (nodes_of T). c' a = c a \<Longrightarrow> red_root c' T = red_root c T"
  by (cases T) auto

lemma invh_cong: "\<forall>a \<in> set (nodes_of T). c' a = c a \<Longrightarrow> invh c' T = invh c T"
proof (induction T)
  case Leaf
  show ?case by simp
next
  case (Node l a r)
  have "bh c' l = bh c l" by (rule bh_cong) (use Node.prems in auto)
  moreover have "bh c' r = bh c r" by (rule bh_cong) (use Node.prems in auto)
  moreover have "invh c' l = invh c l" by (rule Node.IH) (use Node.prems in auto)
  moreover have "invh c' r = invh c r" by (rule Node.IH) (use Node.prems in auto)
  ultimately show ?case by simp
qed

lemma invc_cong: "\<forall>a \<in> set (nodes_of T). c' a = c a \<Longrightarrow> invc c' T = invc c T"
proof (induction T)
  case Leaf
  show ?case by simp
next
  case (Node l a r)
  have "red_root c' l = red_root c l" by (rule red_root_cong) (use Node.prems in auto)
  moreover have "red_root c' r = red_root c r" by (rule red_root_cong) (use Node.prems in auto)
  moreover have "invc c' l = invc c l" by (rule Node.IH) (use Node.prems in auto)
  moreover have "invc c' r = invc c r" by (rule Node.IH) (use Node.prems in auto)
  moreover have "c' a = c a" using Node.prems by simp
  ultimately show ?case by simp
qed

lemma ctx_h_cong: "\<forall>a \<in> set (ctx_nodes fs). c' a = c a \<Longrightarrow> ctx_h c' fs h = ctx_h c fs h"
proof (induction fs arbitrary: h)
  case Nil
  show ?case by simp
next
  case (Cons f fs)
  show ?case
  proof (cases f)
    case (Lf p R)
    have "bh c' R = bh c R" by (rule bh_cong) (use Cons.prems Lf in auto)
    moreover have "invh c' R = invh c R" by (rule invh_cong) (use Cons.prems Lf in auto)
    moreover have "c' p = c p" using Cons.prems Lf by auto
    moreover have "ctx_h c' fs h' = ctx_h c fs h'" for h'
      by (rule Cons.IH) (use Cons.prems Lf in auto)
    ultimately show ?thesis using Lf by simp
  next
    case (Rt L p)
    have "bh c' L = bh c L" by (rule bh_cong) (use Cons.prems Rt in auto)
    moreover have "invh c' L = invh c L" by (rule invh_cong) (use Cons.prems Rt in auto)
    moreover have "c' p = c p" using Cons.prems Rt by auto
    moreover have "ctx_h c' fs h' = ctx_h c fs h'" for h'
      by (rule Cons.IH) (use Cons.prems Rt in auto)
    ultimately show ?thesis using Rt by simp
  qed
qed

lemma ctx_c_cong: "\<forall>a \<in> set (ctx_nodes fs). c' a = c a \<Longrightarrow> ctx_c c' fs r = ctx_c c fs r"
proof (induction fs arbitrary: r)
  case Nil
  show ?case by simp
next
  case (Cons f fs)
  show ?case
  proof (cases f)
    case (Lf p R)
    have "red_root c' R = red_root c R" by (rule red_root_cong) (use Cons.prems Lf in auto)
    moreover have "invc c' R = invc c R" by (rule invc_cong) (use Cons.prems Lf in auto)
    moreover have "c' p = c p" using Cons.prems Lf by auto
    moreover have "ctx_c c' fs r' = ctx_c c fs r'" for r'
      by (rule Cons.IH) (use Cons.prems Lf in auto)
    ultimately show ?thesis using Lf by simp
  next
    case (Rt L p)
    have "red_root c' L = red_root c L" by (rule red_root_cong) (use Cons.prems Rt in auto)
    moreover have "invc c' L = invc c L" by (rule invc_cong) (use Cons.prems Rt in auto)
    moreover have "c' p = c p" using Cons.prems Rt by auto
    moreover have "ctx_c c' fs r' = ctx_c c fs r'" for r'
      by (rule Cons.IH) (use Cons.prems Rt in auto)
    ultimately show ?thesis using Rt by simp
  qed
qed

lemma ctx_root_red_cong:
  "\<forall>a \<in> set (ctx_nodes fs). c' a = c a \<Longrightarrow> ctx_root_red c' fs r = ctx_root_red c fs r"
proof (induction fs arbitrary: r)
  case Nil
  show ?case by simp
next
  case (Cons f fs)
  have "c' (frame_addr f) = c (frame_addr f)"
    using Cons.prems by (cases f) auto
  moreover have "ctx_root_red c' fs r' = ctx_root_red c fs r'" for r'
    by (rule Cons.IH) (use Cons.prems in \<open>cases f; auto\<close>)
  ultimately show ?case by simp
qed

text \<open>Writing a colour keeps the shape.\<close>

lemma set_color_shape [simp]:
  "tree_at (mem (set_color n c t)) par p T = tree_at (mem t) par p T"
  by (rule tree_at_links) (simp add: same_links_def set_color_def)

lemma set_color_fields [simp]:
  "root (set_color n c t) = root t"
  "left (mem (set_color n c t) a) = left (mem t a)"
  "right (mem (set_color n c t) a) = right (mem t a)"
  "parent (mem (set_color n c t) a) = parent (mem t a)"
  "color (mem (set_color n c t) a) = (if a = n then c else color (mem t a))"
  by (simp_all add: set_color_def)

lemma cols_set_color [simp]: "cols (set_color n c t) = (cols t)(n := c)"
  by (auto simp: cols_def fun_eq_iff)

lemma same_rest_refl [simp]: "same_rest t t"
  by (simp add: same_rest_def)

lemma same_rest_trans: "same_rest t t' \<Longrightarrow> same_rest t' t'' \<Longrightarrow> same_rest t t''"
  by (simp add: same_rest_def)

lemma same_rest_set_color [simp]: "same_rest t (set_color n c t)"
  by (simp add: same_rest_def set_color_def)

lemma same_data_rest: "same_data t t' \<Longrightarrow> same_rest t t'"
  by (simp add: same_data_def same_rest_def)

lemma same_data_cols: "same_data t t' \<Longrightarrow> cols t' = cols t"
  by (auto simp: same_data_def cols_def fun_eq_iff)

subsection \<open>Reading and writing around the hole\<close>

lemma zip_set_color [simp]: "zip_at (set_color n c t) fs X = zip_at t fs X"
  by (simp add: zip_at_def)

lemma zip_reads:
  assumes "zip_at t (Lf p (Node B s C) # fs) X" and "ptr X = Some cur"
  shows "parent (mem t cur) = Some p" and "left (mem t p) = Some cur"
    and "right (mem t p) = Some s" and "parent (mem t s) = Some p"
    and "left (mem t s) = ptr B" and "right (mem t s) = ptr C"
    and "cur \<noteq> p" and "cur \<noteq> s" and "p \<noteq> s"
proof -
  obtain Xl Xr where X: "X = Node Xl cur Xr"
    using assms(2) by (cases X) auto
  from assms(1) have sh: "tree_at (mem t) None (root t) (plug fs (Node X p (Node B s C)))"
    and di: "distinct (nodes_of (plug fs (Node X p (Node B s C))))"
    by (simp_all add: zip_at_def)
  from sh have a: "tree_at (mem t) (Some p) (left (mem t p)) X"
    and b: "right (mem t p) = Some s" and c: "parent (mem t s) = Some p"
    and d: "tree_at (mem t) (Some s) (left (mem t s)) B"
    and e: "tree_at (mem t) (Some s) (right (mem t s)) C"
    by (auto simp: tree_at_plug tree_at_Node)
  from a X show "parent (mem t cur) = Some p" "left (mem t p) = Some cur"
    by (auto simp: tree_at_Node)
  show "right (mem t p) = Some s" "parent (mem t s) = Some p" by fact+
  show "left (mem t s) = ptr B" using tree_at_ptr [OF d] .
  show "right (mem t s) = ptr C" using tree_at_ptr [OF e] .
  from di X show "cur \<noteq> p" "cur \<noteq> s" "p \<noteq> s"
    by (auto simp: distinct_plug)
qed

lemma zip_tests:
  assumes "zip_at t (Lf p (Node B s C) # fs) X" and "ptr X = Some cur"
  shows "get_sibling t cur = Some s" and "is_left_child t cur" and "\<not> is_root t cur"
  using zip_reads [OF assms]
  by (simp_all add: get_sibling_def is_left_child_def is_root_def)

lemma tests_set_color [simp]:
  "is_left_child (set_color n c t) x = is_left_child t x"
  "get_sibling (set_color n c t) x = get_sibling t x"
  "is_root (set_color n c t) x = is_root t x"
  by (simp_all add: is_left_child_def get_sibling_def is_root_def split: option.splits)

lemma is_black_ptr: "is_black t (ptr T) = (\<not> red_root (cols t) T)"
  by (cases T) (simp_all add: is_black_def cols_def)

lemma is_red_ptr: "is_red t (ptr T) = red_root (cols t) T"
  by (cases T) (simp_all add: is_red_def cols_def)

lemma is_black_Some: "is_black t (Some a) = (\<not> cols t a)"
  by (simp add: is_black_def cols_def)

lemma is_red_Some: "is_red t (Some a) = cols t a"
  by (simp add: is_red_def cols_def)

lemma zip_rotate_left:
  assumes "zip_at t fs (Node A p (Node B s C))"
  shows "\<exists>t'. rotate_left t p = Some t' \<and> zip_at t' fs (Node (Node A p B) s C) \<and> same_data t t'"
proof -
  from assms have sh: "tree_at (mem t) None (root t) (plug fs (Node A p (Node B s C)))"
    and di: "distinct (nodes_of (plug fs (Node A p (Node B s C))))"
    by (simp_all add: zip_at_def)
  from rotate_left_ctx [OF sh di] obtain t' where r: "rotate_left t p = Some t'"
    and s': "tree_at (mem t') None (root t') (plug fs (Node (Node A p B) s C))"
    and d: "same_data t t'" by blast
  have "distinct (nodes_of (plug fs (Node (Node A p B) s C)))"
    using di by (auto simp: distinct_plug)
  with r s' d show ?thesis by (auto simp: zip_at_def)
qed

lemma zip_rotate_right:
  assumes "zip_at t fs (Node (Node C s B) p A)"
  shows "\<exists>t'. rotate_right t p = Some t' \<and> zip_at t' fs (Node C s (Node B p A)) \<and> same_data t t'"
proof -
  from assms have sh: "tree_at (mem t) None (root t) (plug fs (Node (Node C s B) p A))"
    and di: "distinct (nodes_of (plug fs (Node (Node C s B) p A)))"
    by (simp_all add: zip_at_def)
  from rotate_right_ctx [OF sh di] obtain t' where r: "rotate_right t p = Some t'"
    and s': "tree_at (mem t') None (root t') (plug fs (Node C s (Node B p A)))"
    and d: "same_data t t'" by blast
  have "distinct (nodes_of (plug fs (Node C s (Node B p A))))"
    using di by (auto simp: distinct_plug)
  with r s' d show ?thesis by (auto simp: zip_at_def)
qed

lemma zip_shift: "zip_at t (Lf p S # fs) X = zip_at t fs (Node X p S)"
  by (simp add: zip_at_def)

lemma zip_shift_right: "zip_at t (Rt L p # fs) X = zip_at t fs (Node L p X)"
  by (simp add: zip_at_def)

lemma case_2_black:
  assumes z: "zip_at t (Lf p (Node B s C) # fs) X" and x: "ptr X = Some cur"
    and "\<not> cols t s"
  shows "delete_case_2 t cur = Some t"
  using zip_tests [OF z x] zip_reads [OF z x] assms(3)
  by (simp add: delete_case_2_def is_red_Some)

lemma case_2_red:
  assumes z: "zip_at t (Lf p (Node B s C) # fs) X" and x: "ptr X = Some cur"
    and "cols t s"
  shows "\<exists>t2. delete_case_2 t cur = Some t2 \<and> zip_at t2 (Lf p B # Lf s C # fs) X \<and>
           cols t2 = (cols t)(p := True, s := False) \<and> same_rest t t2"
proof -
  define t1 where "t1 = set_black s (set_red p t)"
  have z1: "zip_at t1 fs (Node X p (Node B s C))"
    using z by (simp add: t1_def set_black_def set_red_def zip_shift)
  have ilc: "is_left_child t1 cur"
    using zip_tests(2) [OF z x] by (simp add: t1_def set_black_def set_red_def)
  from zip_rotate_left [OF z1] obtain t2 where r: "rotate_left t1 p = Some t2"
    and z2: "zip_at t2 fs (Node (Node X p B) s C)" and d: "same_data t1 t2" by blast
  have "delete_case_2 t cur = Some t2"
    using zip_tests [OF z x] zip_reads [OF z x] assms(3) ilc r
    by (simp add: delete_case_2_def is_red_Some Let_def t1_def)
  moreover have "zip_at t2 (Lf p B # Lf s C # fs) X"
    using z2 by (simp add: zip_shift)
  moreover have "cols t2 = (cols t)(p := True, s := False)"
    using same_data_cols [OF d] by (simp add: t1_def set_black_def set_red_def)
  moreover have "same_rest t t2"
    using same_rest_trans [OF _ same_data_rest [OF d], of t]
    by (simp add: t1_def set_black_def set_red_def same_rest_def set_color_def)
  ultimately show ?thesis by blast
qed

lemma case_5_skip:
  assumes z: "zip_at t (Lf p (Node B s C) # fs) X" and x: "ptr X = Some cur"
    and "cols t s \<or> red_root (cols t) C \<or> \<not> red_root (cols t) B"
  shows "delete_case_5 t cur = Some t"
  using zip_tests [OF z x] zip_reads [OF z x] assms(3)
  by (auto simp: delete_case_5_def is_black_Some is_black_ptr is_red_ptr Let_def)

lemma case_5_rotate:
  assumes z: "zip_at t (Lf p (Node (Node B1 b B2) s C) # fs) X" and x: "ptr X = Some cur"
    and "\<not> cols t s" and "\<not> red_root (cols t) C" and "cols t b"
  shows "\<exists>t5. delete_case_5 t cur = Some t5 \<and>
           zip_at t5 (Lf p (Node B1 b (Node B2 s C)) # fs) X \<and>
           cols t5 = (cols t)(s := True, b := False) \<and> same_rest t t5"
proof -
  define t1 where "t1 = set_black b (set_red s t)"
  have z1: "zip_at t1 (Rt X p # fs) (Node (Node B1 b B2) s C)"
    using z by (simp add: t1_def set_black_def set_red_def zip_shift zip_shift_right)
  from zip_rotate_right [OF z1] obtain t5 where r: "rotate_right t1 s = Some t5"
    and z5: "zip_at t5 (Rt X p # fs) (Node B1 b (Node B2 s C))" and d: "same_data t1 t5"
    by blast
  have "delete_case_5 t cur = Some t5"
    using zip_tests [OF z x] zip_reads [OF z x] assms(3,4,5) r
    by (simp add: delete_case_5_def is_black_Some is_red_Some is_black_ptr is_red_ptr Let_def
          t1_def set_red_def)
  moreover have "zip_at t5 (Lf p (Node B1 b (Node B2 s C)) # fs) X"
    using z5 by (simp add: zip_shift zip_shift_right)
  moreover have "cols t5 = (cols t)(s := True, b := False)"
    using same_data_cols [OF d] by (simp add: t1_def set_black_def set_red_def)
  moreover have "same_rest t t5"
    using same_rest_trans [OF _ same_data_rest [OF d], of t]
    by (simp add: t1_def set_black_def set_red_def same_rest_def set_color_def)
  ultimately show ?thesis by blast
qed

lemma case_6_rotate:
  assumes z: "zip_at t (Lf p (Node B s (Node C1 c0 C2)) # fs) X" and x: "ptr X = Some cur"
  shows "\<exists>t6. delete_case_6 t cur = Some t6 \<and>
           zip_at t6 (Lf p B # Lf s (Node C1 c0 C2) # fs) X \<and>
           cols t6 = (cols t)(s := cols t p, p := False, c0 := False) \<and> same_rest t t6"
proof -
  define t1 where "t1 = set_black c0 (set_black p (set_color s (color (mem t p)) t))"
  have z1: "zip_at t1 fs (Node X p (Node B s (Node C1 c0 C2)))"
    using z by (simp add: t1_def set_black_def zip_shift)
  from zip_rotate_left [OF z1] obtain t6 where r: "rotate_left t1 p = Some t6"
    and z6: "zip_at t6 fs (Node (Node X p B) s (Node C1 c0 C2))" and d: "same_data t1 t6"
    by blast
  have ilc: "is_left_child (set_black p (set_color s (color (mem t p)) t)) cur"
    using zip_tests(2) [OF z x] by (simp add: set_black_def)
  have "delete_case_6 t cur = Some t6"
    using zip_tests [OF z x] zip_reads [OF z x] r ilc
    by (simp add: delete_case_6_def Let_def t1_def set_black_def)
  moreover have "zip_at t6 (Lf p B # Lf s (Node C1 c0 C2) # fs) X"
    using z6 by (simp add: zip_shift)
  moreover have "cols t6 = (cols t)(s := cols t p, p := False, c0 := False)"
    using same_data_cols [OF d] by (simp add: t1_def set_black_def cols_def [of t p])
  moreover have "same_rest t t6"
    using same_rest_trans [OF _ same_data_rest [OF d], of t]
    by (simp add: t1_def set_black_def same_rest_def set_color_def)
  ultimately show ?thesis by blast
qed

subsection \<open>A missing black node\<close>

lemma upd_bh [simp]: "x \<notin> set (nodes_of Z) \<Longrightarrow> bh (c(x := v)) Z = bh c Z"
  by (rule bh_cong) auto

lemma upd_invh [simp]: "x \<notin> set (nodes_of Z) \<Longrightarrow> invh (c(x := v)) Z = invh c Z"
  by (rule invh_cong) auto

lemma upd_invc [simp]: "x \<notin> set (nodes_of Z) \<Longrightarrow> invc (c(x := v)) Z = invc c Z"
  by (rule invc_cong) auto

lemma upd_red_root [simp]: "x \<notin> set (nodes_of Z) \<Longrightarrow> red_root (c(x := v)) Z = red_root c Z"
  by (rule red_root_cong) auto

lemma upd_ctx_h [simp]: "x \<notin> set (ctx_nodes fs) \<Longrightarrow> ctx_h (c(x := v)) fs h = ctx_h c fs h"
  by (rule ctx_h_cong) auto

lemma upd_ctx_c [simp]: "x \<notin> set (ctx_nodes fs) \<Longrightarrow> ctx_c (c(x := v)) fs r = ctx_c c fs r"
  by (rule ctx_c_cong) auto

lemma upd_ctx_root_red [simp]:
  "x \<notin> set (ctx_nodes fs) \<Longrightarrow> ctx_root_red (c(x := v)) fs r = ctx_root_red c fs r"
  by (rule ctx_root_red_cong) auto

lemma ctx_c_weaken: "ctx_c c fs r \<Longrightarrow> ctx_c c fs False"
  by (cases fs rule: ctx_nodes.cases) auto

lemma ctx_root_red_weaken: "\<not> ctx_root_red c fs r \<Longrightarrow> \<not> ctx_root_red c fs False"
  by (cases fs) auto

text \<open>What the assumption \<open>deficit\<close> says at a left child with a sibling.\<close>

lemma deficit_sibling:
  assumes "deficit t (Lf p S # fs) X Y"
  shows "\<exists>B s C. S = Node B s C"
proof (cases S)
  case Leaf
  with assms show ?thesis by (simp add: deficit_def)
next
  case (Node B s C)
  then show ?thesis by blast
qed

lemma deficit_facts:
  assumes "deficit t (Lf p (Node B s C) # fs) X Y"
  shows "zip_at t (Lf p (Node B s C) # fs) X" and "\<forall>f \<in> set fs. is_Lf f"
    and "set (nodes_of Y) \<subseteq> set (nodes_of X)"
    and "invh (cols t) Y" and "invc (cols t) Y" and "\<not> red_root (cols t) Y"
    and "invh (cols t) B" and "invh (cols t) C" and "bh (cols t) B = bh (cols t) C"
    and "bh (cols t) B + (if cols t s then 0 else 1) = bh (cols t) Y + 1"
    and "ctx_h (cols t) fs (bh (cols t) Y + 1 + (if cols t p then 0 else 1))"
    and "invc (cols t) B" and "invc (cols t) C"
    and "cols t s \<longrightarrow> \<not> red_root (cols t) B \<and> \<not> red_root (cols t) C"
    and "cols t p \<longrightarrow> \<not> cols t s"
    and "ctx_c (cols t) fs (cols t p)" and "\<not> ctx_root_red (cols t) fs (cols t p)"
  using assms by (auto simp: deficit_def)

lemma deficit_distinct:
  assumes "zip_at t (Lf p (Node B s C) # fs) X" and "set (nodes_of Y) \<subseteq> set (nodes_of X)"
  shows "p \<noteq> s" and "p \<notin> set (nodes_of B)" and "p \<notin> set (nodes_of C)"
    and "p \<notin> set (nodes_of Y)" and "p \<notin> set (ctx_nodes fs)" and "p \<notin> set (nodes_of X)"
    and "s \<notin> set (nodes_of B)" and "s \<notin> set (nodes_of C)"
    and "s \<notin> set (nodes_of Y)" and "s \<notin> set (ctx_nodes fs)" and "s \<notin> set (nodes_of X)"
    and "set (nodes_of B) \<inter> set (nodes_of C) = {}"
    and "set (nodes_of B) \<inter> set (nodes_of Y) = {}"
    and "set (nodes_of C) \<inter> set (nodes_of Y) = {}"
    and "set (nodes_of B) \<inter> set (ctx_nodes fs) = {}"
    and "set (nodes_of C) \<inter> set (ctx_nodes fs) = {}"
    and "set (nodes_of Y) \<inter> set (ctx_nodes fs) = {}"
    and "set (nodes_of B) \<inter> set (nodes_of X) = {}"
    and "set (nodes_of C) \<inter> set (nodes_of X) = {}"
  using assms by (auto simp: zip_at_def distinct_plug)

subsection \<open>The cases of delete\_rebalance\<close>

lemma cases_up:
  assumes d: "deficit t (Lf p (Node B s C) # fs) X Y" and x: "ptr X = Some cur"
    and cp: "\<not> cols t p" and cs: "\<not> cols t s"
    and cb: "\<not> red_root (cols t) B" and cc: "\<not> red_root (cols t) C"
  shows "delete_cases_3_to_6 t cur = Some (set_red s t, Some p)"
    and "deficit (set_red s t) fs (Node X p (Node B s C)) (Node Y p (Node B s C))"
proof -
  note f = deficit_facts [OF d]
  note n = deficit_distinct [OF f(1) f(3)]
  show "delete_cases_3_to_6 t cur = Some (set_red s t, Some p)"
    using zip_tests [OF f(1) x] zip_reads [OF f(1) x] cp cs cb cc
    by (simp add: delete_cases_3_to_6_def is_black_Some is_black_ptr)
  have z: "zip_at (set_red s t) fs (Node X p (Node B s C))"
    using f(1) by (simp add: set_red_def zip_shift)
  have sub: "set (nodes_of (Node Y p (Node B s C))) \<subseteq> set (nodes_of (Node X p (Node B s C)))"
    using f(3) by auto
  have c': "cols (set_red s t) = (cols t)(s := True)"
    by (simp add: set_red_def)
  have k: "bh (cols t) B = bh (cols t) Y" using f(10) cs by simp
  show "deficit (set_red s t) fs (Node X p (Node B s C)) (Node Y p (Node B s C))"
    unfolding deficit_def c'
    using z sub f n cp cs cb cc k
    by (simp add: ctx_c_weaken ctx_root_red_weaken)
qed

lemma cases_recolor:
  assumes d: "deficit t (Lf p (Node B s C) # fs) X Y" and x: "ptr X = Some cur"
    and cp: "cols t p" and cs: "\<not> cols t s"
    and cb: "\<not> red_root (cols t) B" and cc: "\<not> red_root (cols t) C"
  shows "\<exists>t' fs'. delete_cases_3_to_6 t cur = Some (t', None) \<and>
           settled t t' (Lf p (Node B s C) # fs) fs' X Y"
proof -
  note f = deficit_facts [OF d]
  note n = deficit_distinct [OF f(1) f(3)]
  define t' where "t' = set_black p (set_red s t)"
  have r: "delete_cases_3_to_6 t cur = Some (t', None)"
    using zip_tests [OF f(1) x] zip_reads [OF f(1) x] cp cs cb cc
    by (simp add: delete_cases_3_to_6_def is_black_Some is_red_Some is_black_ptr t'_def)
  have z: "zip_at t' (Lf p (Node B s C) # fs) X"
    using f(1) by (simp add: t'_def set_red_def set_black_def)
  have c': "cols t' = (cols t)(s := True, p := False)"
    by (simp add: t'_def set_red_def set_black_def)
  have k: "bh (cols t) B = bh (cols t) Y" using f(10) cs by simp
  have rb: "rbt (cols t') (plug (Lf p (Node B s C) # fs) Y)"
    unfolding rbt_plug c'
    using f n cp cs cb cc k ctx_c_weaken [OF f(16)] ctx_root_red_weaken [OF f(17)]
    by simp
  have sr: "same_rest t t'"
    by (simp add: t'_def set_red_def set_black_def same_rest_def set_color_def)
  have "settled t t' (Lf p (Node B s C) # fs) (Lf p (Node B s C) # fs) X Y"
    unfolding settled_def using z f(2) rb sr by (simp add: c')
  with r show ?thesis by blast
qed

lemma cases_far_red:
  assumes d: "deficit t (Lf p (Node B s (Node C1 c0 C2)) # fs) X Y" and x: "ptr X = Some cur"
    and cs: "\<not> cols t s" and cc: "cols t c0"
  shows "\<exists>t' fs'. delete_cases_3_to_6 t cur = Some (t', None) \<and>
           settled t t' (Lf p (Node B s (Node C1 c0 C2)) # fs) fs' X Y"
proof -
  note f = deficit_facts [OF d]
  note n = deficit_distinct [OF f(1) f(3)]
  have c5: "delete_case_5 t cur = Some t"
    by (rule case_5_skip [OF f(1) x]) (simp add: cc)
  from case_6_rotate [OF f(1) x] obtain t' where c6: "delete_case_6 t cur = Some t'"
    and z: "zip_at t' (Lf p B # Lf s (Node C1 c0 C2) # fs) X"
    and c': "cols t' = (cols t)(s := cols t p, p := False, c0 := False)"
    and sr: "same_rest t t'" by blast
  have r: "delete_cases_3_to_6 t cur = Some (t', None)"
    using zip_tests [OF f(1) x] zip_reads [OF f(1) x] cs cc c5 c6
    by (simp add: delete_cases_3_to_6_def is_black_Some is_red_Some is_black_def cols_def)
  have k: "bh (cols t) B = bh (cols t) Y" using f(10) cs by simp
  have m: "c0 \<noteq> p" "c0 \<noteq> s" "c0 \<notin> set (nodes_of B)" "c0 \<notin> set (nodes_of Y)"
    "c0 \<notin> set (ctx_nodes fs)" "c0 \<notin> set (nodes_of C1)" "c0 \<notin> set (nodes_of C2)"
    "p \<notin> set (nodes_of C1)" "p \<notin> set (nodes_of C2)"
    "s \<notin> set (nodes_of C1)" "s \<notin> set (nodes_of C2)" "c0 \<notin> set (nodes_of X)"
    using f(1) f(3) by (auto simp: zip_at_def distinct_plug)
  have rb: "rbt (cols t') (plug (Lf p B # Lf s (Node C1 c0 C2) # fs) Y)"
    unfolding rbt_plug c'
    using f n m cs cc k
    by simp
  have "settled t t' (Lf p (Node B s (Node C1 c0 C2)) # fs) (Lf p B # Lf s (Node C1 c0 C2) # fs) X Y"
    unfolding settled_def using z f(2) rb sr by (simp add: c')
  with r show ?thesis by blast
qed

lemma cases_near_red:
  assumes d: "deficit t (Lf p (Node (Node B1 b B2) s C) # fs) X Y" and x: "ptr X = Some cur"
    and cs: "\<not> cols t s" and cc: "\<not> red_root (cols t) C" and cb: "cols t b"
  shows "\<exists>t' fs'. delete_cases_3_to_6 t cur = Some (t', None) \<and>
           settled t t' (Lf p (Node (Node B1 b B2) s C) # fs) fs' X Y"
proof -
  note f = deficit_facts [OF d]
  note n = deficit_distinct [OF f(1) f(3)]
  from case_5_rotate [OF f(1) x cs cc cb] obtain t5 where c5: "delete_case_5 t cur = Some t5"
    and z5: "zip_at t5 (Lf p (Node B1 b (Node B2 s C)) # fs) X"
    and col5: "cols t5 = (cols t)(s := True, b := False)"
    and sr5: "same_rest t t5" by blast
  from case_6_rotate [OF z5 x] obtain t' where c6: "delete_case_6 t5 cur = Some t'"
    and z: "zip_at t' (Lf p B1 # Lf b (Node B2 s C) # fs) X"
    and c': "cols t' = (cols t5)(b := cols t5 p, p := False, s := False)"
    and sr6: "same_rest t5 t'" by blast
  have r: "delete_cases_3_to_6 t cur = Some (t', None)"
    using zip_tests [OF f(1) x] zip_reads [OF f(1) x] cs cc cb c5 c6
    by (simp add: delete_cases_3_to_6_def is_black_Some is_red_Some is_black_def cols_def)
  have m: "b \<noteq> p" "b \<noteq> s" "b \<notin> set (nodes_of C)" "b \<notin> set (nodes_of Y)"
    "b \<notin> set (ctx_nodes fs)" "b \<notin> set (nodes_of B1)" "b \<notin> set (nodes_of B2)"
    "p \<notin> set (nodes_of B1)" "p \<notin> set (nodes_of B2)"
    "s \<notin> set (nodes_of B1)" "s \<notin> set (nodes_of B2)" "b \<notin> set (nodes_of X)"
    "p \<noteq> s" "p \<notin> set (nodes_of C)" "s \<notin> set (nodes_of C)"
    "p \<notin> set (nodes_of Y)" "s \<notin> set (nodes_of Y)"
    "p \<notin> set (ctx_nodes fs)" "s \<notin> set (ctx_nodes fs)"
    "p \<notin> set (nodes_of X)" "s \<notin> set (nodes_of X)"
    using f(1) f(3) by (auto simp: zip_at_def distinct_plug)
  have pb: "cols t5 p = cols t p" using m by (simp add: col5)
  have c'': "cols t' = (cols t)(b := cols t p, p := False, s := False)"
    unfolding c' col5 pb using m by (auto simp: fun_eq_iff)
  have rb: "rbt (cols t') (plug (Lf p B1 # Lf b (Node B2 s C) # fs) Y)"
    unfolding rbt_plug c''
    using f m cs cc cb
    by simp
  have sr: "same_rest t t'" using same_rest_trans [OF sr5 sr6] .
  have "settled t t' (Lf p (Node (Node B1 b B2) s C) # fs) (Lf p B1 # Lf b (Node B2 s C) # fs) X Y"
    unfolding settled_def using z f(2) rb sr by (simp add: c'')
  with r show ?thesis by blast
qed

subsection \<open>The loop of delete\_rebalance\<close>

lemma red_root_Node: "red_root c T \<Longrightarrow> \<exists>l a r. T = Node l a r \<and> c a"
  by (cases T) auto

lemma cases_black_sibling:
  assumes d: "deficit t (Lf p (Node B s C) # fs) X Y" and x: "ptr X = Some cur"
    and cs: "\<not> cols t s"
    and na: "cols t p \<or> red_root (cols t) B \<or> red_root (cols t) C"
  shows "\<exists>t' fs'. delete_cases_3_to_6 t cur = Some (t', None) \<and>
           settled t t' (Lf p (Node B s C) # fs) fs' X Y"
proof (cases "red_root (cols t) C")
  case True
  then obtain C1 c0 C2 where C: "C = Node C1 c0 C2" and c0: "cols t c0"
    using red_root_Node by blast
  show ?thesis
    using cases_far_red [OF d [unfolded C] x cs c0] unfolding C .
next
  case cc: False
  show ?thesis
  proof (cases "red_root (cols t) B")
    case True
    then obtain B1 b B2 where B: "B = Node B1 b B2" and b: "cols t b"
      using red_root_Node by blast
    show ?thesis
      using cases_near_red [OF d [unfolded B] x cs cc b] unfolding B .
  next
    case False
    with na cc have "cols t p" by simp
    from cases_recolor [OF d x this cs False cc] show ?thesis .
  qed
qed

lemma body_up:
  assumes d: "deficit t (Lf p (Node B s C) # fs) X Y" and x: "ptr X = Some cur"
    and cp: "\<not> cols t p" and cs: "\<not> cols t s"
    and cb: "\<not> red_root (cols t) B" and cc: "\<not> red_root (cols t) C"
  shows "delete_rebalance_body t cur = Some (set_red s t, Some p)"
    and "deficit (set_red s t) fs (Node X p (Node B s C)) (Node Y p (Node B s C))"
proof -
  note f = deficit_facts [OF d]
  have "delete_case_2 t cur = Some t"
    by (rule case_2_black [OF f(1) x cs])
  then show "delete_rebalance_body t cur = Some (set_red s t, Some p)"
    using cases_up(1) [OF d x cp cs cb cc] by (simp add: delete_rebalance_body_def)
  show "deficit (set_red s t) fs (Node X p (Node B s C)) (Node Y p (Node B s C))"
    by (rule cases_up(2) [OF d x cp cs cb cc])
qed

lemma settled_after_case_2:
  assumes "settled t2 t' (Lf p B # Lf s C # fs) fs' X Y"
    and "same_rest t t2" and "cols t2 = (cols t)(p := True, s := False)"
  shows "settled t t' (Lf p (Node B s C) # fs) fs' X Y"
  using assms same_rest_trans [of t t2 t']
  by (auto simp: settled_def)

lemma body_done:
  assumes d: "deficit t (Lf p (Node B s C) # fs) X Y" and x: "ptr X = Some cur"
    and na: "cols t p \<or> cols t s \<or> red_root (cols t) B \<or> red_root (cols t) C"
  shows "\<exists>t' fs'. delete_rebalance_body t cur = Some (t', None) \<and>
           settled t t' (Lf p (Node B s C) # fs) fs' X Y"
proof (cases "cols t s")
  case False
  note f = deficit_facts [OF d]
  have "delete_case_2 t cur = Some t"
    by (rule case_2_black [OF f(1) x False])
  moreover from na False have "cols t p \<or> red_root (cols t) B \<or> red_root (cols t) C" by simp
  ultimately show ?thesis
    using cases_black_sibling [OF d x False] by (simp add: delete_rebalance_body_def)
next
  case True
  note f = deficit_facts [OF d]
  note n = deficit_distinct [OF f(1) f(3)]
  from case_2_red [OF f(1) x True] obtain t2 where c2: "delete_case_2 t cur = Some t2"
    and z2: "zip_at t2 (Lf p B # Lf s C # fs) X"
    and col2: "cols t2 = (cols t)(p := True, s := False)"
    and sr2: "same_rest t t2" by blast
  have cp: "\<not> cols t p" using f(15) True by auto
  have k: "bh (cols t) B = bh (cols t) Y + 1" using f(10) True by simp
  have d2: "deficit t2 (Lf p B # Lf s C # fs) X Y"
    unfolding deficit_def col2
    using z2 f n True cp k by simp
  from k obtain B1 b B2 where B: "B = Node B1 b B2"
    by (cases B) auto
  have bb: "\<not> cols t b" using f(14) True B by simp
  have bn: "b \<noteq> p" "b \<noteq> s" using n B by auto
  have cs2: "\<not> cols t2 b" using bb bn by (simp add: col2)
  have cp2: "cols t2 p \<or> red_root (cols t2) B1 \<or> red_root (cols t2) B2"
    using n by (simp add: col2)
  from cases_black_sibling [OF d2 [unfolded B] x cs2 cp2]
  obtain t' fs' where r: "delete_cases_3_to_6 t2 cur = Some (t', None)"
    and s2: "settled t2 t' (Lf p B # Lf s C # fs) fs' X Y"
    unfolding B by blast
  have "delete_rebalance_body t cur = Some (t', None)"
    using c2 r by (simp add: delete_rebalance_body_def)
  with settled_after_case_2 [OF s2 sr2 col2] show ?thesis by blast
qed

lemma settled_up:
  assumes "settled t1 t' fs fs' (Node X p S) (Node Y p S)"
    and "same_rest t t1" and "\<forall>a. a \<notin> set (nodes_of S) \<longrightarrow> cols t1 a = cols t a"
  shows "settled t t' (Lf p S # fs) (Lf p S # fs') X Y"
  using assms same_rest_trans [of t t1 t']
  by (auto simp: settled_def zip_shift)

lemma delete_rebalance_root:
  "is_root t cur \<Longrightarrow> delete_rebalance t cur = Some t"
  by (subst delete_rebalance.simps) simp

lemma delete_rebalance_step:
  "\<not> is_root t cur \<Longrightarrow> delete_rebalance t cur =
     (case delete_rebalance_body t cur of
        None \<Rightarrow> None
      | Some (t', None) \<Rightarrow> Some t'
      | Some (t', Some n) \<Rightarrow> delete_rebalance t' n)"
  by (subst delete_rebalance.simps) simp

lemma delete_rebalance_left:
  assumes "deficit t fs X Y" and "ptr X = Some cur"
  shows "\<exists>t' fs'. delete_rebalance t cur = Some t' \<and> settled t t' fs fs' X Y"
  using assms
proof (induction fs arbitrary: t X Y cur)
  case Nil
  then have z: "tree_at (mem t) None (root t) X" by (simp add: deficit_def zip_at_def)
  with Nil.prems(2) have "is_root t cur"
    by (cases X) (auto simp: tree_at_Node is_root_def)
  then have "delete_rebalance t cur = Some t" by (rule delete_rebalance_root)
  moreover have "settled t t [] [] X Y"
    using Nil.prems(1) by (simp add: settled_def deficit_def rbt_def)
  ultimately show ?case by blast
next
  case (Cons f fs)
  from Cons.prems(1) obtain p S where f: "f = Lf p S"
    by (cases f) (auto simp: deficit_def)
  from deficit_sibling [OF Cons.prems(1) [unfolded f]] obtain B s C where S: "S = Node B s C"
    by blast
  note d = Cons.prems(1) [unfolded f S]
  note x = Cons.prems(2)
  note fa = deficit_facts [OF d]
  have nr: "\<not> is_root t cur" using zip_tests(3) [OF fa(1) x] .
  show ?case
  proof (cases "cols t p \<or> cols t s \<or> red_root (cols t) B \<or> red_root (cols t) C")
    case True
    from body_done [OF d x True] obtain t' fs' where
      b: "delete_rebalance_body t cur = Some (t', None)"
      and s: "settled t t' (Lf p (Node B s C) # fs) fs' X Y" by blast
    have "delete_rebalance t cur = Some t'"
      using b by (simp add: delete_rebalance_step [OF nr])
    with s show ?thesis unfolding f S by blast
  next
    case False
    then have cp: "\<not> cols t p" and cs: "\<not> cols t s"
      and cb: "\<not> red_root (cols t) B" and cc: "\<not> red_root (cols t) C" by auto
    note up = body_up [OF d x cp cs cb cc]
    have step: "delete_rebalance t cur = delete_rebalance (set_red s t) p"
      using up(1) by (simp add: delete_rebalance_step [OF nr])
    from Cons.IH [OF up(2)] obtain t' fs' where
      r: "delete_rebalance (set_red s t) p = Some t'"
      and s1: "settled (set_red s t) t' fs fs' (Node X p (Node B s C)) (Node Y p (Node B s C))"
      by auto
    have "settled t t' (Lf p (Node B s C) # fs) (Lf p (Node B s C) # fs') X Y"
      by (rule settled_up [OF s1]) (simp_all add: set_red_def)
    moreover from step r have "delete_rebalance t cur = Some t'" by simp
    ultimately show ?thesis unfolding f S by blast
  qed
qed

subsection \<open>Removing a leaf\<close>

lemma plug_append: "plug (fs @ gs) S = plug gs (plug fs S)"
  by (induction fs S rule: plug.induct) auto

lemma spine_decomp:
  "T \<noteq> Leaf \<Longrightarrow> \<exists>fs x R. T = plug fs (Node Leaf x R) \<and> (\<forall>f \<in> set fs. is_Lf f)"
proof (induction T)
  case Leaf
  then show ?case by simp
next
  case (Node l a r)
  show ?case
  proof (cases "l = Leaf")
    case True
    then have "Node l a r = plug [] (Node Leaf a r)" by simp
    then show ?thesis by (metis empty_iff list.set(1))
  next
    case False
    from Node.IH(1) [OF False] obtain fs x R where l: "l = plug fs (Node Leaf x R)"
      and lf: "\<forall>f \<in> set fs. is_Lf f" by blast
    have "Node l a r = plug (fs @ [Lf a r]) (Node Leaf x R)"
      by (simp add: plug_append l)
    moreover have "\<forall>f \<in> set (fs @ [Lf a r]). is_Lf f" using lf by simp
    ultimately show ?thesis by blast
  qed
qed

lemma all_Lf_left: "\<forall>f \<in> set fs. is_Lf f \<Longrightarrow> ctx_left fs = [] \<and> ctx_nodes fs = ctx_right fs"
  by (induction fs rule: ctx_nodes.induct) auto

lemma bh_zero:
  "bh c R = 0 \<Longrightarrow> invh c R \<Longrightarrow> invc c R \<Longrightarrow> R = Leaf \<or> (\<exists>s. R = Node Leaf s Leaf \<and> c s)"
proof (cases R)
  case Leaf
  then show ?thesis by simp
next
  case (Node l s r)
  assume a: "bh c R = 0" "invh c R" "invc c R"
  with Node have cs: "c s" and l0: "bh c l = 0" and r0: "bh c r = 0"
    and nl: "\<not> red_root c l" and nr: "\<not> red_root c r"
    by (auto split: if_splits)
  have "l = Leaf" using l0 nl by (cases l) (auto split: if_splits)
  moreover have "r = Leaf" using r0 nr by (cases r) (auto split: if_splits)
  ultimately show ?thesis using Node cs by simp
qed

text \<open>Unlinking the subtree in the hole.\<close>

lemma zip_unlink:
  assumes z: "zip_at t fs X" and t': "mem t' = redirect fs None (mem t)"
    and r: "root t' = (if fs = [] then None else root t)"
  shows "zip_at t' fs Leaf"
proof -
  from z have cx: "ctx_at (mem t) (root t) fs (ptr X)"
    and di: "distinct (ctx_nodes fs)"
    by (auto simp: zip_at_def tree_at_plug distinct_plug)
  have "ctx_at (mem t') (if fs = [] then None else root t) fs None"
    by (rule ctx_at_redirect [OF cx di]) (simp add: t' same_links_def)
  then show ?thesis
    using di by (simp add: zip_at_def tree_at_plug distinct_plug r)
qed

lemma replace_node_left_leaf:
  assumes z: "zip_at t (Lf p R # fs) X" and x: "ptr X = Some x"
  shows "replace_node x None t = Some (set_left p None t)"
    and "zip_at (set_left p None t) (Lf p R # fs) Leaf"
proof -
  obtain Xl Xr where X: "X = Node Xl x Xr" using x by (cases X) auto
  from z have a: "tree_at (mem t) (Some p) (left (mem t p)) X"
    by (auto simp: zip_at_def tree_at_plug tree_at_Node)
  with X have px: "parent (mem t x) = Some p" and lp: "left (mem t p) = Some x"
    by (auto simp: tree_at_Node)
  show "replace_node x None t = Some (set_left p None t)"
    by (simp add: replace_node_def px is_left_child_def lp)
  show "zip_at (set_left p None t) (Lf p R # fs) Leaf"
    by (rule zip_unlink [OF z]) (simp_all add: redirect_def mem_set_left)
qed

lemma replace_node_right_leaf:
  assumes z: "zip_at t (Rt L p # fs) X" and x: "ptr X = Some x"
  shows "replace_node x None t = Some (set_right p None t)"
    and "zip_at (set_right p None t) (Rt L p # fs) Leaf"
proof -
  obtain Xl Xr where X: "X = Node Xl x Xr" using x by (cases X) auto
  from z have a: "tree_at (mem t) (Some p) (right (mem t p)) X"
    and b: "tree_at (mem t) (Some p) (left (mem t p)) L"
    and di: "distinct (nodes_of (plug (Rt L p # fs) X))"
    by (auto simp: zip_at_def tree_at_plug tree_at_Node)
  with X have px: "parent (mem t x) = Some p" and rp: "right (mem t p) = Some x"
    by (auto simp: tree_at_Node)
  have "x \<notin> set (nodes_of L)" using di X by (auto simp: distinct_plug)
  then have "left (mem t p) \<noteq> Some x"
    using tree_at_ptr [OF b] ptr_in_nodes by fastforce
  then show "replace_node x None t = Some (set_right p None t)"
    by (simp add: replace_node_def px is_left_child_def)
  show "zip_at (set_right p None t) (Rt L p # fs) Leaf"
    by (rule zip_unlink [OF z]) (simp_all add: redirect_def mem_set_right)
qed

text \<open>Pushing a node that is outside the tree to the free-list.\<close>

lemma push_free_node_fields:
  "root (push_free_node t n) = root t"
  "tree_size (push_free_node t n) = tree_size t - 1"
  "max_size (push_free_node t n) = max_size t"
  "node_block (push_free_node t n) = node_block t"
  "free_node_head (push_free_node t n) = Some n"
  "range_value (mem (push_free_node t n) a) = range_value (mem t a)"
  "range_offset (mem (push_free_node t n) a) = range_offset (mem t a)"
  "color (mem (push_free_node t n) a) = color (mem t a)"
  "traversal_state (mem (push_free_node t n) a) = traversal_state (mem t a)"
  by (cases "free_node_head t";
      simp add: push_free_node_def Let_def set_left_def set_right_def)+

lemma push_free_node_outside:
  "a \<noteq> n \<Longrightarrow> Some a \<noteq> free_node_head t \<Longrightarrow> mem (push_free_node t n) a = mem t a"
  by (cases "free_node_head t")
     (auto simp: push_free_node_def Let_def set_left_def set_right_def)

lemma zip_push_free:
  assumes "zip_at t fs X" and "n \<notin> set (nodes_of (plug fs X))"
    and "set_option (free_node_head t) \<inter> set (nodes_of (plug fs X)) = {}"
  shows "zip_at (push_free_node t n) fs X"
proof -
  have "tree_at (mem (push_free_node t n)) None (root t) (plug fs X)
          = tree_at (mem t) None (root t) (plug fs X)"
  proof (rule tree_at_links, rule ballI)
    fix a assume "a \<in> set (nodes_of (plug fs X))"
    then have "a \<noteq> n" "Some a \<noteq> free_node_head t"
      using assms(2,3) by (cases "free_node_head t"; auto)+
    then show "same_links (mem t) (mem (push_free_node t n)) a"
      by (simp add: push_free_node_outside same_links_def)
  qed
  then show ?thesis
    using assms(1) by (simp add: zip_at_def push_free_node_fields)
qed

subsection \<open>Deleting the leftmost node\<close>

lemma zip_at_same_links:
  "\<forall>a. same_links (mem t) (mem t') a \<Longrightarrow> root t' = root t \<Longrightarrow> zip_at t' fs X = zip_at t fs X"
  using tree_at_links [of "plug fs X" "mem t" "mem t'" None "root t"]
  by (simp add: zip_at_def)

lemma leftmost_here: "left (mem t s) = None \<Longrightarrow> leftmost t s = Some s"
  by (subst leftmost.simps) simp

lemma rightmost_here: "right (mem t s) = None \<Longrightarrow> rightmost t s = Some s"
  by (subst rightmost.simps) simp

lemma leaf_reads:
  assumes "zip_at t fs (Node L x R)"
  shows "left (mem t x) = ptr L" and "right (mem t x) = ptr R" and "parent (mem t x) = hole_par fs"
proof -
  from assms have a: "tree_at (mem t) (hole_par fs) (Some x) (Node L x R)"
    by (simp add: zip_at_def tree_at_plug)
  then have l: "tree_at (mem t) (Some x) (left (mem t x)) L"
    and r: "tree_at (mem t) (Some x) (right (mem t x)) R"
    and p: "parent (mem t x) = hole_par fs"
    by (auto simp: tree_at_Node)
  show "left (mem t x) = ptr L" using tree_at_ptr [OF l] .
  show "right (mem t x) = ptr R" using tree_at_ptr [OF r] .
  show "parent (mem t x) = hole_par fs" by fact
qed

lemma delete_min_red_child:
  assumes w: "wf_tree t (plug fs (Node Leaf x (Node Leaf s Leaf)))" and lf: "\<forall>f \<in> set fs. is_Lf f"
    and cs: "cols t s"
  shows "\<exists>t'. delete_rb_node t x = Some t' \<and> wf_tree t' (plug fs (Node Leaf x Leaf)) \<and>
           map (rng t') (nodes_of (plug fs (Node Leaf x Leaf)))
             = tl (map (rng t) (nodes_of (plug fs (Node Leaf x (Node Leaf s Leaf)))))"
proof -
  let ?T = "plug fs (Node Leaf x (Node Leaf s Leaf))"
  from w have z: "zip_at t fs (Node Leaf x (Node Leaf s Leaf))"
    and rb: "rbt (cols t) ?T"
    and fh: "set_option (free_node_head t) \<inter> set (nodes_of ?T) = {}"
    and sz: "tree_size t = of_nat (length (nodes_of ?T))"
    by (simp_all add: wf_tree_def zip_at_def)
  have zs: "zip_at t (Rt Leaf x # fs) (Node Leaf s Leaf)"
    using z by (simp add: zip_shift_right)
  note rx = leaf_reads [OF z]
  note rs = leaf_reads [OF zs]
  have xs: "x \<noteq> s" and xc: "x \<notin> set (ctx_nodes fs)" and sc: "s \<notin> set (ctx_nodes fs)"
    using z by (auto simp: zip_at_def distinct_plug)
  have succ: "get_successor t x = Some (Some s)"
    using rx rs by (simp add: get_successor_def get_left_successor_def get_right_successor_def
          leftmost_here)
  define t1 where "t1 = swap_offsets x s (swap_values x s t)"
  have m1: "mem t1 = (mem t)(x := (mem t x)\<lparr>range_value := range_value (mem t s),
                                            range_offset := range_offset (mem t s)\<rparr>,
                            s := (mem t s)\<lparr>range_value := range_value (mem t x),
                                            range_offset := range_offset (mem t x)\<rparr>)"
    using xs by (auto simp: t1_def swap_offsets_def swap_values_def set_value_def set_offset_def
          Let_def fun_eq_iff)
  have f1: "root t1 = root t" "free_node_head t1 = free_node_head t" "tree_size t1 = tree_size t"
    by (simp_all add: t1_def swap_offsets_def swap_values_def set_value_def set_offset_def Let_def)
  have c1: "cols t1 = cols t"
    by (auto simp: cols_def m1 fun_eq_iff)
  have zs1: "zip_at t1 (Rt Leaf x # fs) (Node Leaf s Leaf)"
    using zs zip_at_same_links [of t t1] by (simp add: m1 same_links_def f1)
  define t2 where "t2 = set_right x None t1"
  have rep: "replace_node s None t1 = Some t2"
    and z2: "zip_at t2 (Rt Leaf x # fs) Leaf"
    using replace_node_right_leaf [OF zs1] by (simp_all add: t2_def)
  have doc: "delete_one_child t1 s = Some (push_free_node t2 s)"
    using leaf_reads [OF zs1] cs rep
    by (simp add: delete_one_child_def has_left_child_def is_black_Some c1)
  define t' where "t' = push_free_node t2 s"
  have del: "delete_rb_node t x = Some t'"
    using succ doc by (simp add: delete_rb_node_def t1_def t'_def)
  have z2': "zip_at t2 fs (Node Leaf x Leaf)"
    using z2 by (simp add: zip_shift_right)
  have ns: "nodes_of (plug fs (Node Leaf x Leaf)) = x # ctx_right fs"
    "nodes_of ?T = x # s # ctx_right fs"
    using all_Lf_left [OF lf] by (simp_all add: nodes_plug)
  have sn: "s \<notin> set (nodes_of (plug fs (Node Leaf x Leaf)))"
    using xs sc all_Lf_left [OF lf] by (simp add: ns)
  have h2: "free_node_head t2 = free_node_head t"
    by (simp add: t2_def set_right_def f1)
  have fh2: "set_option (free_node_head t2) \<inter> set (nodes_of (plug fs (Node Leaf x Leaf))) = {}"
    using fh by (auto simp: h2 ns)
  have z': "zip_at t' fs (Node Leaf x Leaf)"
    unfolding t'_def by (rule zip_push_free [OF z2' sn fh2])
  have c': "cols t' = cols t"
    by (auto simp: cols_def t'_def push_free_node_fields t2_def set_right_def m1 fun_eq_iff)
  have rb': "rbt (cols t') (plug fs (Node Leaf x Leaf))"
    using rb cs unfolding c' rbt_plug by (cases "cols t x") auto
  have sz': "tree_size t' = of_nat (length (nodes_of (plug fs (Node Leaf x Leaf))))"
    by (simp add: t'_def push_free_node_fields t2_def set_right_def f1 sz ns)
  have fh': "set_option (free_node_head t') \<inter> set (nodes_of (plug fs (Node Leaf x Leaf))) = {}"
    using sn by (simp add: t'_def push_free_node_fields)
  have w': "wf_tree t' (plug fs (Node Leaf x Leaf))"
    using z' rb' fh' sz' by (simp add: wf_tree_def zip_at_def)
  have r1: "rng t' x = rng t s"
    using xs by (simp add: rng_def t'_def push_free_node_fields t2_def set_right_def m1)
  have r2: "rng t' a = rng t a" if "a \<noteq> x" "a \<noteq> s" for a
    using that by (simp add: rng_def t'_def push_free_node_fields t2_def set_right_def m1)
  have "map (rng t') (ctx_right fs) = map (rng t) (ctx_right fs)"
    using xc sc all_Lf_left [OF lf] by (auto intro: r2)
  then have "map (rng t') (nodes_of (plug fs (Node Leaf x Leaf))) = tl (map (rng t) (nodes_of ?T))"
    by (simp add: ns r1)
  with del w' show ?thesis by blast
qed

lemma delete_min_root:
  assumes w: "wf_tree t (Node Leaf x Leaf)"
  shows "\<exists>t'. delete_rb_node t x = Some t' \<and> wf_tree t' Leaf \<and> root t' = None"
proof -
  from w have z: "zip_at t [] (Node Leaf x Leaf)"
    and sz: "tree_size t = 1"
    by (simp_all add: wf_tree_def)
  note rx = leaf_reads [OF z]
  have succ: "get_successor t x = Some None"
    using rx by (simp add: get_successor_def get_left_successor_def get_right_successor_def)
  define t' where "t' = (push_free_node t x)\<lparr>root := None\<rparr>"
  have del: "delete_rb_node t x = Some t'"
    using succ rx by (simp add: delete_rb_node_def is_root_def t'_def)
  have "wf_tree t' Leaf"
    by (simp add: wf_tree_def zip_at_def rbt_def t'_def push_free_node_fields sz)
  with del show ?thesis by (auto simp: t'_def)
qed

lemma delete_min_leaf:
  assumes w: "wf_tree t (plug fs (Node Leaf x Leaf))" and lf: "\<forall>f \<in> set fs. is_Lf f"
    and ne: "fs \<noteq> []"
  shows "\<exists>t' T'. delete_rb_node t x = Some t' \<and> wf_tree t' T' \<and>
           map (rng t') (nodes_of T') = tl (map (rng t) (nodes_of (plug fs (Node Leaf x Leaf))))"
proof -
  let ?X = "Node Leaf x Leaf"
  let ?T = "plug fs ?X"
  from w have z: "zip_at t fs ?X"
    and rb: "rbt (cols t) ?T"
    and fh: "set_option (free_node_head t) \<inter> set (nodes_of ?T) = {}"
    and sz: "tree_size t = of_nat (length (nodes_of ?T))"
    by (simp_all add: wf_tree_def zip_at_def)
  note rx = leaf_reads [OF z]
  obtain p R fs0 where fs: "fs = Lf p R # fs0"
    using ne lf by (cases fs rule: ctx_nodes.cases) auto
  have succ: "get_successor t x = Some None"
    using rx by (simp add: get_successor_def get_left_successor_def get_right_successor_def)
  have nr: "\<not> is_root t x"
    using rx by (simp add: is_root_def fs)
  have "\<exists>t1 fs'. (if is_black t (Some x) then delete_rebalance t x else Some t) = Some t1 \<and>
                  settled t t1 fs fs' ?X Leaf"
  proof (cases "cols t x")
    case True
    then have "settled t t fs fs ?X Leaf"
      using rb z lf ctx_root_red_weaken [of "cols t" fs True] unfolding rbt_plug settled_def
      by (auto intro: ctx_c_weaken)
    then show ?thesis using True by (auto simp: is_black_Some)
  next
    case False
    then have "deficit t fs ?X Leaf"
      using rb z lf unfolding rbt_plug deficit_def by auto
    from delete_rebalance_left [OF this, of x] False show ?thesis
      by (auto simp: is_black_Some)
  qed
  then obtain t1 fs' where
    reb: "(if is_black t (Some x) then delete_rebalance t x else Some t) = Some t1"
    and st: "settled t t1 fs fs' ?X Leaf" by blast
  from st have z1: "zip_at t1 fs' ?X" and lf': "\<forall>f \<in> set fs'. is_Lf f"
    and rb1: "rbt (cols t1) (plug fs' Leaf)" and sr: "same_rest t t1"
    and cr: "ctx_right fs' = ctx_right fs"
    by (simp_all add: settled_def)
  have ne': "fs' \<noteq> []" using cr fs by auto
  then obtain p' R' fs1 where fs': "fs' = Lf p' R' # fs1"
    using lf' by (cases fs' rule: ctx_nodes.cases) auto
  define t2 where "t2 = set_left p' None t1"
  have rep: "replace_node x None t1 = Some t2" and z2: "zip_at t2 fs' Leaf"
    using replace_node_left_leaf [of t1 p' R' fs1 ?X x] z1 by (simp_all add: fs' t2_def)
  define t' where "t' = push_free_node t2 x"
  have doc: "delete_one_child t x = Some t'"
    using rx reb rep by (simp add: delete_one_child_def has_left_child_def t'_def)
  have del: "delete_rb_node t x = Some t'"
    using succ nr doc by (simp add: delete_rb_node_def)
  have ns: "nodes_of ?T = x # ctx_right fs" "nodes_of (plug fs' Leaf) = ctx_right fs"
    "nodes_of (plug fs' ?X) = x # ctx_right fs"
    using all_Lf_left [OF lf] all_Lf_left [OF lf'] cr by (simp_all add: nodes_plug)
  have xn: "x \<notin> set (nodes_of (plug fs' Leaf))"
    using z by (auto simp: zip_at_def ns)
  have h2: "free_node_head t2 = free_node_head t"
    using sr by (simp add: t2_def set_left_def same_rest_def)
  have fh2: "set_option (free_node_head t2) \<inter> set (nodes_of (plug fs' Leaf)) = {}"
    using fh by (auto simp: h2 ns)
  have z': "zip_at t' fs' Leaf"
    unfolding t'_def by (rule zip_push_free [OF z2 xn fh2])
  have c': "cols t' = cols t1"
    by (auto simp: cols_def t'_def push_free_node_fields t2_def set_left_def fun_eq_iff)
  have sz': "tree_size t' = of_nat (length (nodes_of (plug fs' Leaf)))"
    using sr by (simp add: t'_def push_free_node_fields t2_def set_left_def sz ns same_rest_def)
  have fh': "set_option (free_node_head t') \<inter> set (nodes_of (plug fs' Leaf)) = {}"
    using xn by (simp add: t'_def push_free_node_fields)
  have w': "wf_tree t' (plug fs' Leaf)"
    using z' rb1 fh' sz' by (simp add: wf_tree_def zip_at_def c')
  have "rng t' a = rng t a" for a
    using sr by (simp add: rng_def t'_def push_free_node_fields t2_def set_left_def same_rest_def)
  then have "rng t' = rng t" by (simp add: fun_eq_iff)
  then have "map (rng t') (nodes_of (plug fs' Leaf)) = tl (map (rng t) (nodes_of ?T))"
    by (simp add: ns)
  with del w' show ?thesis by blast
qed

text \<open>Deleting the leftmost node of a well-formed tree.\<close>

lemma leftmost_decomp:
  assumes "T \<noteq> Leaf"
  shows "\<exists>fs x R. T = plug fs (Node Leaf x R) \<and> (\<forall>f \<in> set fs. is_Lf f) \<and> hd (nodes_of T) = x"
proof -
  from spine_decomp [OF assms] obtain fs x R where
    T: "T = plug fs (Node Leaf x R)" and lf: "\<forall>f \<in> set fs. is_Lf f" by blast
  have "nodes_of T = x # nodes_of R @ ctx_right fs"
    using all_Lf_left [OF lf] by (simp add: T nodes_plug)
  with T lf show ?thesis by auto
qed

lemma delete_min:
  assumes w: "wf_tree t T" and ne: "T \<noteq> Leaf"
  shows "\<exists>t' T'. delete_rb_node t (hd (nodes_of T)) = Some t' \<and> wf_tree t' T' \<and>
           map (rng t') (nodes_of T') = tl (map (rng t) (nodes_of T))"
proof -
  from leftmost_decomp [OF ne] obtain fs x R where
    T: "T = plug fs (Node Leaf x R)" and lf: "\<forall>f \<in> set fs. is_Lf f"
    and hd: "hd (nodes_of T) = x" by blast
  from w have rb: "rbt (cols t) (plug fs (Node Leaf x R))" by (simp add: wf_tree_def T)
  then have "bh (cols t) R = 0" "invh (cols t) R" "invc (cols t) R"
    unfolding rbt_plug by auto
  from bh_zero [OF this] consider "R = Leaf" | s where "R = Node Leaf s Leaf" "cols t s"
    by blast
  then show ?thesis
  proof cases
    case 1
    show ?thesis
    proof (cases "fs = []")
      case True
      with w T 1 have "wf_tree t (Node Leaf x Leaf)" by simp
      from delete_min_root [OF this] obtain t' where
        "delete_rb_node t x = Some t'" "wf_tree t' Leaf" by blast
      moreover have "tl (map (rng t) (nodes_of T)) = []" using T 1 True by simp
      ultimately have "delete_rb_node t x = Some t' \<and> wf_tree t' Leaf \<and>
           map (rng t') (nodes_of Leaf) = tl (map (rng t) (nodes_of T))" by simp
      then show ?thesis unfolding hd by blast
    next
      case False
      from delete_min_leaf [OF _ lf False, of t x] w T 1 show ?thesis
        unfolding hd by simp
    qed
  next
    case 2
    from delete_min_red_child [OF _ lf, of t x s] w T 2 show ?thesis
      unfolding hd by blast
  qed
qed

subsection \<open>Draining with rebalancing\<close>

lemma clear_ts_fields [simp]:
  "root (clear_ts S t) = root t"
  "tree_size (clear_ts S t) = tree_size t"
  "max_size (clear_ts S t) = max_size t"
  "free_node_head (clear_ts S t) = free_node_head t"
  "free_node_tail (clear_ts S t) = free_node_tail t"
  "node_block (clear_ts S t) = node_block t"
  "parent (mem (clear_ts S t) a) = parent (mem t a)"
  "left (mem (clear_ts S t) a) = left (mem t a)"
  "right (mem (clear_ts S t) a) = right (mem t a)"
  "color (mem (clear_ts S t) a) = color (mem t a)"
  "range_value (mem (clear_ts S t) a) = range_value (mem t a)"
  "range_offset (mem (clear_ts S t) a) = range_offset (mem t a)"
  "traversal_state (mem (clear_ts S t) a) = (a \<notin> S \<and> traversal_state (mem t a))"
  by (simp_all add: clear_ts_def)

lemma clear_ts_empty [simp]: "clear_ts {} t = t"
  by (simp add: clear_ts_def)

lemma clear_ts_set: "clear_ts S (set_traversal_state l False t) = clear_ts (insert l S) t"
  by (auto simp: clear_ts_def set_traversal_state_def fun_eq_iff)

lemma tree_at_set_ts [simp]:
  "tree_at (mem (set_traversal_state l b t)) par p T = tree_at (mem t) par p T"
  by (rule tree_at_links) (simp add: same_links_def set_traversal_state_def)

lemma descend_left_spec:
  "tree_at (mem t) par (Some n) (Node L n R) \<Longrightarrow>
   descend_left t n = Some (clear_ts (set (spine L)) t, hd (nodes_of (Node L n R)))"
proof (induction L arbitrary: t n R par)
  case Leaf
  then have "left (mem t n) = None"
    using tree_at_ptr [of "mem t" "Some n" "left (mem t n)" Leaf] by (simp add: tree_at_Node)
  then show ?case by (subst descend_left.simps) simp
next
  case (Node L1 l L2)
  then have a: "tree_at (mem t) (Some n) (left (mem t n)) (Node L1 l L2)"
    by (simp add: tree_at_Node)
  then have ln: "left (mem t n) = Some l"
    using tree_at_ptr [OF a] by simp
  have "tree_at (mem (set_traversal_state l False t)) (Some n) (Some l) (Node L1 l L2)"
    unfolding tree_at_set_ts using a ln by simp
  from Node.IH(1) [OF this]
  have "descend_left (set_traversal_state l False t) l
          = Some (clear_ts (insert l (set (spine L1))) t, hd (nodes_of (Node L1 l L2)))"
    by (simp add: clear_ts_set)
  then show ?case
    by (subst descend_left.simps) (simp add: ln hd_append)
qed

lemma first_spec:
  assumes "zip_at t [] T"
  shows "rb_tree_get_first_rb_node (Some t) it =
           Some (if T = Leaf then RB_FAIL_NULL_TREE else RB_SUCCESS,
                 Some (clear_ts (set (spine T)) t),
                 if T = Leaf then None else Some (hd (nodes_of T)))"
proof (cases T)
  case Leaf
  with assms have "root t = None"
    using tree_at_ptr [of "mem t" None "root t" Leaf] by (simp add: zip_at_def)
  then show ?thesis using Leaf by (simp add: rb_tree_get_first_rb_node_def)
next
  case (Node L r R)
  with assms have a: "tree_at (mem t) None (root t) (Node L r R)" by (simp add: zip_at_def)
  then have rt: "root t = Some r" using tree_at_ptr [OF a] by simp
  have "tree_at (mem (set_traversal_state r False t)) None (Some r) (Node L r R)"
    unfolding tree_at_set_ts using a rt by simp
  from descend_left_spec [OF this] show ?thesis
    using Node rt by (simp add: rb_tree_get_first_rb_node_def clear_ts_set)
qed

lemma wf_tree_clear_ts [simp]: "wf_tree (clear_ts S t) T = wf_tree t T"
proof -
  have "tree_at (mem (clear_ts S t)) None (root t) T = tree_at (mem t) None (root t) T"
    by (rule tree_at_links) (simp add: same_links_def)
  moreover have "cols (clear_ts S t) = cols t" by (simp add: cols_def fun_eq_iff)
  ultimately show ?thesis by (simp add: wf_tree_def zip_at_def)
qed

lemma rng_clear_ts [simp]: "rng (clear_ts S t) = rng t"
  by (simp add: rng_def fun_eq_iff)

lemma drain_loop_stop: "drain_loop reb t None rg acc = Some (t, acc)"
  by (subst drain_loop.simps) (simp add: rb_tree_get_next_rb_node_def)

lemma wf_tree_Leaf: "wf_tree t Leaf \<Longrightarrow> root t = None \<and> tree_size t = 0"
  using tree_at_ptr [of "mem t" None "root t" Leaf] by (simp add: wf_tree_def zip_at_def)

lemma drain_loop_rebalance:
  assumes "wf_tree t T"
  shows "\<exists>t'. drain_loop True t (if T = Leaf then None else Some (hd (nodes_of T))) rg acc
               = Some (t', acc @ map (rng t) (nodes_of T)) \<and>
             root t' = None \<and> tree_size t' = 0"
  using assms
proof (induction "length (nodes_of T)" arbitrary: t T rg acc)
  case 0
  then have T: "T = Leaf" by (cases T) auto
  with 0 wf_tree_Leaf [of t] show ?case by (simp add: drain_loop_stop)
next
  case (Suc k)
  then have ne: "T \<noteq> Leaf" by auto
  let ?x = "hd (nodes_of T)"
  from delete_min [OF Suc.prems ne] obtain t1 T1 where
    del: "delete_rb_node t ?x = Some t1" and w1: "wf_tree t1 T1"
    and r1: "map (rng t1) (nodes_of T1) = tl (map (rng t) (nodes_of T))" by blast
  have len: "k = length (nodes_of T1)"
    using arg_cong [OF r1, of length] Suc.hyps(2) by simp
  define t2 where "t2 = clear_ts (set (spine T1)) t1"
  have z1: "zip_at t1 [] T1" using w1 by (simp add: wf_tree_def)
  have step: "rb_tree_get_next_rb_node (Some t) (Some ?x) (Some rg) True True =
                Some (RB_SUCCESS, Some t2, (if T1 = Leaf then None else Some (hd (nodes_of T1))),
                      Some (rng t ?x))"
    by (simp add: rb_tree_get_next_rb_node_def del first_spec [OF z1] t2_def rng_def)
  have w2: "wf_tree t2 T1" using w1 by (simp add: t2_def)
  from Suc.hyps(1) [OF len w2, of "rng t ?x" "acc @ [rng t ?x]"] obtain t' where
    l: "drain_loop True t2 (if T1 = Leaf then None else Some (hd (nodes_of T1))) (rng t ?x)
          (acc @ [rng t ?x]) = Some (t', (acc @ [rng t ?x]) @ map (rng t2) (nodes_of T1))"
    and e: "root t' = None" "tree_size t' = 0" by blast
  have "nodes_of T \<noteq> []" using ne by (cases T) auto
  then have "map (rng t) (nodes_of T) = rng t ?x # map (rng t2) (nodes_of T1)"
    using r1 by (cases "nodes_of T") (auto simp: t2_def)
  then have "drain_loop True t (Some ?x) rg acc = Some (t', acc @ map (rng t) (nodes_of T))"
    using l by (subst drain_loop.simps) (simp add: step)
  with e ne show ?case by auto
qed

lemma drain_rebalance:
  assumes "wf_tree t T"
  shows "\<exists>t'. drain True t rg = Some (t', map (rng t) (nodes_of T)) \<and>
             root t' = None \<and> tree_size t' = 0"
proof -
  have z: "zip_at t [] T" using assms by (simp add: wf_tree_def)
  have w: "wf_tree (clear_ts (set (spine T)) t) T" using assms by simp
  from drain_loop_rebalance [OF w, of rg "[]"] show ?thesis
    by (simp add: drain_def first_spec [OF z])
qed

subsection \<open>Draining without rebalancing\<close>

lemma spine_plug:
  "\<forall>f \<in> set fs. is_Lf f \<Longrightarrow> set (spine (plug fs Y)) = frame_addr ` set fs \<union> set (spine Y)"
  by (induction fs Y rule: plug.induct) auto

lemma frame_addr_ctx: "frame_addr ` set fs \<subseteq> set (ctx_nodes fs)"
  by (induction fs rule: ctx_nodes.induct) auto

text \<open>Putting the right subtree of the node in the hole in its place.\<close>

lemma zip_splice:
  assumes z: "zip_at t fs (Node L x R)"
    and m: "mem t' = (case ptr R of
                        None \<Rightarrow> redirect fs None (mem t)
                      | Some r \<Rightarrow> (redirect fs (Some r) (mem t))
                                    (r := (redirect fs (Some r) (mem t) r)\<lparr>parent := hole_par fs\<rparr>))"
    and r: "root t' = (if fs = [] then ptr R else root t)"
  shows "zip_at t' fs R"
proof -
  from z have cx: "ctx_at (mem t) (root t) fs (Some x)"
    and tx: "tree_at (mem t) (hole_par fs) (Some x) (Node L x R)"
    and di: "distinct (ctx_nodes fs)" and dx: "distinct (nodes_of (Node L x R))"
    and dj: "set (ctx_nodes fs) \<inter> set (nodes_of (Node L x R)) = {}"
    by (auto simp: zip_at_def tree_at_plug distinct_plug)
  from tx have tr: "tree_at (mem t) (Some x) (right (mem t x)) R"
    by (simp add: tree_at_Node)
  have rx: "right (mem t x) = ptr R" using tree_at_ptr [OF tr] .
  have out: "redirect fs h (mem t) a = mem t a" if "a \<notin> set (ctx_nodes fs)" for a h
    using that by (cases fs rule: ctx_nodes.cases) (auto simp: redirect_def)
  have ctx: "ctx_at (mem t') (if fs = [] then ptr R else root t) fs (ptr R)"
  proof (rule ctx_at_redirect [OF cx di], rule ballI)
    fix a assume a: "a \<in> set (ctx_nodes fs)"
    then have "a \<notin> set (nodes_of R)" using dj by auto
    then have "ptr R \<noteq> Some a" by (cases R) auto
    then have "mem t' a = redirect fs (ptr R) (mem t) a"
      by (cases "ptr R") (auto simp: m)
    then show "same_links (redirect fs (ptr R) (mem t)) (mem t') a"
      by (simp add: same_links_def)
  qed
  have sub: "tree_at (mem t') (hole_par fs) (ptr R) R"
  proof (rule tree_at_reparent [of "mem t" "Some x" "ptr R" R])
    show "tree_at (mem t) (Some x) (ptr R) R" using tr rx by simp
    show "distinct (nodes_of R)" using dx by simp
    show "\<forall>a \<in> set (nodes_of R). left (mem t' a) = left (mem t a) \<and> right (mem t' a) = right (mem t a)"
    proof
      fix a assume "a \<in> set (nodes_of R)"
      then have "a \<notin> set (ctx_nodes fs)" using dj by auto
      then show "left (mem t' a) = left (mem t a) \<and> right (mem t' a) = right (mem t a)"
        by (cases "ptr R") (auto simp: m out)
    qed
    show "\<forall>a \<in> set (nodes_of R). Some a \<noteq> ptr R \<longrightarrow> parent (mem t' a) = parent (mem t a)"
    proof
      fix a assume "a \<in> set (nodes_of R)"
      then have "a \<notin> set (ctx_nodes fs)" using dj by auto
      then show "Some a \<noteq> ptr R \<longrightarrow> parent (mem t' a) = parent (mem t a)"
        by (cases "ptr R") (auto simp: m out)
    qed
    show "\<forall>a. ptr R = Some a \<longrightarrow> parent (mem t' a) = hole_par fs"
      by (auto simp: m)
  qed
  have "distinct (nodes_of (plug fs R))"
    using di dx dj by (auto simp: distinct_plug)
  with ctx sub show ?thesis
    by (simp add: zip_at_def tree_at_plug r)
qed

lemma ascend_visited_step:
  "traversal_state (mem t n) \<Longrightarrow> ascend_visited t (Some n) = ascend_visited t (parent (mem t n))"
  by (subst ascend_visited.simps) simp

lemma ascend_visited_stop:
  "\<not> traversal_state (mem t n) \<Longrightarrow> ascend_visited t (Some n) = Some (Some n)"
  by (subst ascend_visited.simps) simp

lemma ascend_visited_None: "ascend_visited t None = Some None"
  by (subst ascend_visited.simps) simp

lemma next_no_rebalance:
  assumes ok: "nb_ok t (plug fs (Node Leaf x R))" and lf: "\<forall>f \<in> set fs. is_Lf f"
  shows "\<exists>t'. rb_tree_get_next_rb_node (Some t) (Some x) (Some rg) True False
                = Some (RB_SUCCESS, Some t',
                        (if plug fs R = Leaf then None else Some (hd (nodes_of (plug fs R)))),
                        Some (rng t x)) \<and>
              nb_ok t' (plug fs R) \<and> rng t' = rng t"
proof -
  let ?T = "plug fs (Node Leaf x R)"
  from ok have z: "zip_at t fs (Node Leaf x R)"
    and fh: "set_option (free_node_head t) \<inter> set (nodes_of ?T) = {}"
    and sz: "tree_size t = of_nat (length (nodes_of ?T))"
    and ts: "\<forall>a \<in> set (spine ?T). \<not> traversal_state (mem t a)"
    by (simp_all add: nb_ok_def zip_at_def)
  note rx = leaf_reads [OF z]
  have xc: "x \<notin> set (ctx_nodes fs)" and xr: "x \<notin> set (nodes_of R)"
    and rc: "set (ctx_nodes fs) \<inter> set (nodes_of R) = {}"
    using z by (auto simp: zip_at_def distinct_plug)
  have xf: "x \<notin> frame_addr ` set fs" using xc frame_addr_ctx [of fs] by auto
  have tsf: "\<not> traversal_state (mem t a)" if "a \<in> frame_addr ` set fs" for a
    using ts that by (auto simp: spine_plug [OF lf])
  define t1 where "t1 = set_traversal_state x True t"
  define t2 where "t2 = clear_ts (set (spine R)) t1"
  define it where "it = (case R of Leaf \<Rightarrow> hole_par fs | Node l r u \<Rightarrow> Some (hd (nodes_of R)))"
  have l2: "same_links (mem t) (mem t2) a" for a
    by (simp add: same_links_def t2_def t1_def set_traversal_state_def)
  have f2: "root t2 = root t" "free_node_head t2 = free_node_head t" "tree_size t2 = tree_size t"
    by (simp_all add: t2_def t1_def set_traversal_state_def)
  have r2: "range_value (mem t2 a) = range_value (mem t a)"
    "range_offset (mem t2 a) = range_offset (mem t a)" for a
    by (simp_all add: t2_def t1_def set_traversal_state_def)
  have s2: "\<not> traversal_state (mem t2 a)" if "a \<in> frame_addr ` set fs \<union> set (spine R)" for a
    using that tsf xf by (auto simp: t2_def t1_def set_traversal_state_def)
  have z2: "zip_at t2 fs (Node Leaf x R)"
    using z zip_at_same_links [of t t2] l2 f2 by simp
  have nxt: "(case right (mem t x) of
                Some r \<Rightarrow> map_option (\<lambda>(t2, it). (t2, Some it))
                            (descend_left (set_traversal_state r False
                                             (set_traversal_state x True t)) r)
              | None \<Rightarrow> (let t1 = set_traversal_state x True t
                          in map_option (Pair t1) (ascend_visited t1 (Some x))))
             = Some (t2, it)"
  proof (cases R)
    case Leaf
    have a: "ascend_visited t1 (Some x) = ascend_visited t1 (hole_par fs)"
      using rx by (simp add: ascend_visited_step t1_def set_traversal_state_def)
    have "ascend_visited t1 (hole_par fs) = Some (hole_par fs)"
    proof (cases fs)
      case Nil
      then show ?thesis by (simp add: ascend_visited_None)
    next
      case (Cons f fs0)
      then have "\<not> traversal_state (mem t1 (frame_addr f))"
        using tsf [of "frame_addr f"] xf by (simp add: t1_def set_traversal_state_def)
      then show ?thesis using Cons by (simp add: ascend_visited_stop)
    qed
    with a show ?thesis
      using rx Leaf by (simp add: t1_def [symmetric] t2_def it_def)
  next
    case (Node RL r RR)
    from z have "tree_at (mem t) (Some x) (right (mem t x)) R"
      by (simp add: zip_at_def tree_at_plug tree_at_Node)
    then have "tree_at (mem (set_traversal_state r False t1)) (Some x) (Some r) (Node RL r RR)"
      unfolding tree_at_set_ts t1_def using rx Node by simp
    from descend_left_spec [OF this] show ?thesis
      using rx Node by (simp add: t1_def [symmetric] t2_def it_def clear_ts_set)
  qed
  have iter: "it = (if plug fs R = Leaf then None else Some (hd (nodes_of (plug fs R))))"
  proof (cases R)
    case Leaf
    show ?thesis
    proof (cases fs rule: ctx_nodes.cases)
      case 1
      then show ?thesis using Leaf by (simp add: it_def)
    next
      case (2 p S fs0)
      then have "nodes_of (plug fs R) = p # nodes_of S @ ctx_right fs0"
        using all_Lf_left [OF lf] Leaf by (simp add: nodes_plug)
      moreover from this have "plug fs R \<noteq> Leaf" by auto
      ultimately show ?thesis using Leaf 2 by (simp add: it_def)
    next
      case (3 L p fs0)
      with lf show ?thesis by simp
    qed
  next
    case (Node RL r RR)
    then have "nodes_of (plug fs R) = nodes_of R @ ctx_right fs" "nodes_of R \<noteq> []"
      using all_Lf_left [OF lf] by (simp_all add: nodes_plug)
    moreover from this have "plug fs R \<noteq> Leaf" by auto
    ultimately show ?thesis using Node by (simp add: it_def hd_append)
  qed
  define t3 where "t3 = (case fs of [] \<Rightarrow> t2\<lparr>root := ptr R\<rparr>
                                  | f # _ \<Rightarrow> set_left (frame_addr f) (ptr R) t2)"
  define t4 where "t4 = (case ptr R of None \<Rightarrow> t3 | Some r \<Rightarrow> set_parent r (hole_par fs) t3)"
  note rx2 = leaf_reads [OF z2]
  have m3: "mem t3 = redirect fs (ptr R) (mem t2)"
    using lf by (cases fs rule: ctx_nodes.cases) (simp_all add: t3_def redirect_def set_left_def)
  have x3: "right (mem t3 x) = ptr R" "parent (mem t3 x) = hole_par fs"
    using rx2 xc by (cases fs rule: ctx_nodes.cases; simp add: m3 redirect_def)+
  have del: "delete_rb_node_without_rebalancing t2 x = push_free_node t4 x"
  proof (cases fs rule: ctx_nodes.cases)
    case 1
    then show ?thesis
      using rx2 x3 by (cases "ptr R"; simp add: delete_rb_node_without_rebalancing_def t3_def t4_def Let_def)
  next
    case (2 p S fs0)
    then have "left (mem t2 p) = Some x"
      using z2 tree_at_ptr [of "mem t2" "Some p" "left (mem t2 p)" "Node Leaf x R"]
      by (simp add: zip_at_def tree_at_plug)
    then have "is_left_child t2 x" using rx2 2 by (simp add: is_left_child_def)
    then show ?thesis
      using rx2 x3 2
      by (cases "ptr R"; simp add: delete_rb_node_without_rebalancing_def t3_def t4_def Let_def)
  next
    case (3 L p fs0)
    with lf show ?thesis by simp
  qed
  have m4: "mem t4 = (case ptr R of
                        None \<Rightarrow> redirect fs None (mem t2)
                      | Some r \<Rightarrow> (redirect fs (Some r) (mem t2))
                                    (r := (redirect fs (Some r) (mem t2) r)\<lparr>parent := hole_par fs\<rparr>))"
    by (cases "ptr R") (simp_all add: t4_def m3 set_parent_def)
  have r4: "root t4 = (if fs = [] then ptr R else root t2)"
    by (cases fs; cases "ptr R"; simp add: t4_def t3_def set_parent_def set_left_def)
  have f4: "free_node_head t4 = free_node_head t" "tree_size t4 = tree_size t"
    by (cases fs; cases "ptr R"; simp add: t4_def t3_def set_parent_def set_left_def f2)+
  have d4: "range_value (mem t4 a) = range_value (mem t2 a)"
    "range_offset (mem t4 a) = range_offset (mem t2 a)"
    "traversal_state (mem t4 a) = traversal_state (mem t2 a)" for a
    by (cases fs rule: ctx_nodes.cases; cases "ptr R"; simp add: m4 redirect_def)+
  have z4: "zip_at t4 fs R" by (rule zip_splice [OF z2 m4 r4])
  define t' where "t' = push_free_node t4 x"
  have ns: "nodes_of ?T = x # nodes_of R @ ctx_right fs"
    "nodes_of (plug fs R) = nodes_of R @ ctx_right fs"
    using all_Lf_left [OF lf] by (simp_all add: nodes_plug)
  have xn: "x \<notin> set (nodes_of (plug fs R))"
    using xc xr all_Lf_left [OF lf] by (simp add: ns)
  have fh4: "set_option (free_node_head t4) \<inter> set (nodes_of (plug fs R)) = {}"
    using fh by (auto simp: f4 ns)
  have z': "zip_at t' fs R"
    unfolding t'_def by (rule zip_push_free [OF z4 xn fh4])
  have "nb_ok t' (plug fs R)"
    unfolding nb_ok_def
  proof (intro conjI)
    show "zip_at t' [] (plug fs R)" using z' by (simp add: zip_at_def)
    show "set_option (free_node_head t') \<inter> set (nodes_of (plug fs R)) = {}"
      using xn by (simp add: t'_def push_free_node_fields)
    show "tree_size t' = of_nat (length (nodes_of (plug fs R)))"
      by (simp add: t'_def push_free_node_fields f4 sz ns)
    show "\<forall>a \<in> set (spine (plug fs R)). \<not> traversal_state (mem t' a)"
      using s2 by (simp add: spine_plug [OF lf] t'_def push_free_node_fields d4)
  qed
  moreover have "rng t' = rng t"
    by (simp add: rng_def fun_eq_iff t'_def push_free_node_fields d4 r2)
  moreover have "rb_tree_get_next_rb_node (Some t) (Some x) (Some rg) True False
                = Some (RB_SUCCESS, Some t', it, Some (rng t x))"
    by (simp add: rb_tree_get_next_rb_node_def nxt del t'_def rng_def)
  ultimately show ?thesis unfolding iter by blast
qed

lemma drain_loop_no_rebalance:
  assumes "nb_ok t T"
  shows "\<exists>t'. drain_loop False t (if T = Leaf then None else Some (hd (nodes_of T))) rg acc
               = Some (t', acc @ map (rng t) (nodes_of T)) \<and>
             root t' = None \<and> tree_size t' = 0"
  using assms
proof (induction "length (nodes_of T)" arbitrary: t T rg acc)
  case 0
  then have T: "T = Leaf" by (cases T) auto
  with 0 tree_at_ptr [of "mem t" None "root t" Leaf] show ?case
    by (simp add: drain_loop_stop nb_ok_def zip_at_def)
next
  case (Suc k)
  then have ne: "T \<noteq> Leaf" by auto
  from leftmost_decomp [OF ne] obtain fs x R where
    T: "T = plug fs (Node Leaf x R)" and lf: "\<forall>f \<in> set fs. is_Lf f"
    and hd: "hd (nodes_of T) = x" by blast
  let ?T1 = "plug fs R"
  from next_no_rebalance [OF _ lf, of t x R rg] Suc.prems T obtain t1 where
    step: "rb_tree_get_next_rb_node (Some t) (Some x) (Some rg) True False
             = Some (RB_SUCCESS, Some t1,
                     (if ?T1 = Leaf then None else Some (hd (nodes_of ?T1))), Some (rng t x))"
    and ok1: "nb_ok t1 ?T1" and r1: "rng t1 = rng t" by blast
  have ns: "nodes_of T = x # nodes_of ?T1"
    using all_Lf_left [OF lf] by (simp add: T nodes_plug)
  have len: "k = length (nodes_of ?T1)" using Suc.hyps(2) ns by simp
  from Suc.hyps(1) [OF len ok1, of "rng t x" "acc @ [rng t x]"] obtain t' where
    l: "drain_loop False t1 (if ?T1 = Leaf then None else Some (hd (nodes_of ?T1))) (rng t x)
          (acc @ [rng t x]) = Some (t', (acc @ [rng t x]) @ map (rng t1) (nodes_of ?T1))"
    and e: "root t' = None" "tree_size t' = 0" by blast
  have "drain_loop False t (Some x) rg acc = Some (t', acc @ map (rng t) (nodes_of T))"
    using l by (subst drain_loop.simps) (simp add: step ns r1)
  with e ne hd show ?case by auto
qed

lemma drain_no_rebalance:
  assumes "wf_tree t T"
  shows "\<exists>t'. drain False t rg = Some (t', map (rng t) (nodes_of T)) \<and>
             root t' = None \<and> tree_size t' = 0"
proof -
  have z: "zip_at t [] T" using assms by (simp add: wf_tree_def)
  have "zip_at (clear_ts (set (spine T)) t) [] T"
    using z zip_at_same_links [of t "clear_ts (set (spine T)) t" "[]" T]
    by (simp add: same_links_def)
  then have ok: "nb_ok (clear_ts (set (spine T)) t) T"
    using assms by (simp add: nb_ok_def wf_tree_def)
  from drain_loop_no_rebalance [OF ok, of rg "[]"] show ?thesis
    by (simp add: drain_def first_spec [OF z])
qed

subsection \<open>Both ways of draining\<close>

text \<open>In a tree ordered as invariant I4 says, the values of the nodes ascend in order.\<close>

lemma bst_ascending: "bst m T \<Longrightarrow> sorted_wrt (\<lambda>a b. hi m a + 1 < lo m b) (nodes_of T)"
proof (induction T)
  case Leaf
  show ?case by simp
next
  case (Node l a r)
  have le: "lo m a \<le> hi m a" by (simp add: lo_def hi_def)
  have "hi m x + 1 < lo m y" if "x \<in> set (nodes_of l)" "y \<in> set (nodes_of r)" for x y
  proof -
    have "hi m x + 1 < lo m a" "hi m a + 1 < lo m y" using Node.prems that by auto
    with le show ?thesis by simp
  qed
  with Node show ?case by (auto simp: sorted_wrt_append)
qed

lemma bst_values_ascending:
  assumes "bst (mem t) T"
  shows "sorted_wrt (<) (map (\<lambda>a. rvalue (rng t a)) (nodes_of T))"
proof -
  have "hi (mem t) a + 1 < lo (mem t) b \<Longrightarrow> rvalue (rng t a) < rvalue (rng t b)" for a b
    by (simp add: hi_def lo_def rng_def word_less_nat_alt)
  with bst_ascending [OF assms] show ?thesis
    by (simp add: sorted_wrt_map) (erule sorted_wrt_mono_rel [rotated], blast)
qed

lemma drain_ordered_tree:
  assumes w: "wf_tree t T" and b: "bst (mem t) T"
  shows "\<exists>t1 t2. drain True t rg = Some (t1, map (rng t) (nodes_of T)) \<and>
                 drain False t rg = Some (t2, map (rng t) (nodes_of T)) \<and>
                 rb_tree_is_empty (Some t1) \<and> root t1 = None \<and>
                 rb_tree_is_empty (Some t2) \<and> root t2 = None \<and>
                 distinct (nodes_of T) \<and>
                 sorted_wrt (<) (map (\<lambda>a. rvalue (rng t a)) (nodes_of T))"
proof -
  from drain_rebalance [OF w, of rg] obtain t1 where
    "drain True t rg = Some (t1, map (rng t) (nodes_of T))" "root t1 = None" "tree_size t1 = 0"
    by blast
  moreover from drain_no_rebalance [OF w, of rg] obtain t2 where
    "drain False t rg = Some (t2, map (rng t) (nodes_of T))" "root t2 = None" "tree_size t2 = 0"
    by blast
  moreover have "distinct (nodes_of T)" using w by (simp add: wf_tree_def zip_at_def)
  ultimately show ?thesis
    using bst_values_ascending [OF b] by (simp add: rb_tree_is_empty_def)
qed

end
